theory Spec2Isabelle
  imports Complex_Main
begin

section \<open>Functional coverage: the registry and its nodes\<close>

text \<open>
  A shallow embedding of \<^verbatim>\<open>cocotb_coverage/coverage.py\<close>.

  \<^item> The module-level dictionary \<^verbatim>\<open>coverage_db\<close> is a map from names to objects.
    Every object is entered under its name by \<^verbatim>\<open>CoverItem.__init__\<close>, so an object is
    referred to by its registry key.
  \<^item> The attribute \<^verbatim>\<open>_parent\<close> is assigned once, in \<^verbatim>\<open>CoverItem.__init__\<close>, to
    \<^verbatim>\<open>coverage_db[parent_name]\<close> when the name contains a dot, and stays \<^verbatim>\<open>None\<close>
    otherwise. The model reads it off the name: the parent of \<open>name\<close> is the object
    registered under \<open>parent_name name\<close>, and \<^verbatim>\<open>self._parent is None\<close> is
    \<open>\<not> has_dot name\<close>.
  \<^item> Bins and sampled values are Python integers, strings, \<^verbatim>\<open>None\<close> and tuples of them;
    \<^verbatim>\<open>True\<close> is the integer 1 (\<^verbatim>\<open>bool\<close> is a subclass of \<^verbatim>\<open>int\<close>, equal and hashing
    alike), so \<^verbatim>\<open>==\<close> on these values is equality.
  \<^item> A callback is an opaque zero-argument function; calling it is recorded in the
    list \<open>fired\<close> of the state, last call last.
  \<^item> An exception is an \<open>error\<close> returned next to the state it leaves behind.
  \<^item> The true division \<^verbatim>\<open>100 * coverage / size\<close> is the exact quotient, a rational.
  \<^item> What the decorators find out by reflection (whether the decorated function is a
    bound method, the position of \<^verbatim>\<open>vname\<close> in its signature) is outside the model: a
    sampling event receives the argument list that reaches the transformation or the
    pass and fail functions.
\<close>

datatype pyval = VInt int | VStr string | VNone | VTuple "pyval list"

datatype error =
    NoParent
  | KeyError
  | AttributeError
  | ZeroDivisionError
  | IndexError
  | TypeError

datatype kind = Item | Point | Cross | Check

type_synonym callback = nat

datatype event =
    ThresholdFired string int callback
  | BinsFired string pyval callback

text \<open>
  One record for the four classes; \<open>kind\<close> is the class of the object. The attributes
  of the derived classes are assigned by their own \<^verbatim>\<open>__init__\<close>; \<open>hits = None\<close> says that
  \<^verbatim>\<open>_hits\<close> has not been assigned (reading it raises \<^verbatim>\<open>AttributeError\<close>).
\<close>

record node =
  name :: string
  kind :: kind
  u_size :: int
  u_coverage :: int
  children :: "string list"
  new_hits :: "pyval list"
  threshold_callbacks :: "(int \<times> callback) list"
  bins_callbacks :: "(pyval \<times> callback) list"
  hits :: "(pyval \<times> int) list option"
  weight :: int
  at_least :: int
  transformation :: "(pyval list \<Rightarrow> pyval) option"
  relation :: "pyval \<Rightarrow> pyval \<Rightarrow> bool"
  injection :: bool
  items :: "string list"
  f_pass :: "(pyval list \<Rightarrow> bool) option"
  f_fail :: "pyval list \<Rightarrow> bool"

record state =
  coverage_db :: "string \<rightharpoonup> node"
  fired :: "event list"

definition empty_state :: state where
  "empty_state = \<lparr>coverage_db = Map.empty, fired = []\<rparr>"

subsection \<open>Names\<close>

definition has_dot :: "string \<Rightarrow> bool" where
  "has_dot nm = (CHR ''.'' \<in> set nm)"

text \<open>\<^verbatim>\<open>name.split(".")\<close> and \<^verbatim>\<open>".".join(...)\<close>.\<close>

fun split_dot :: "string \<Rightarrow> string list" where
  "split_dot [] = [[]]"
| "split_dot (c # cs) =
     (if c = CHR ''.'' then [] # split_dot cs
      else (c # hd (split_dot cs)) # tl (split_dot cs))"

fun join_dot :: "string list \<Rightarrow> string" where
  "join_dot [] = []"
| "join_dot [w] = w"
| "join_dot (w # v # ws) = w @ CHR ''.'' # join_dot (v # ws)"

definition parent_name :: "string \<Rightarrow> string" where
  "parent_name nm = join_dot (butlast (split_dot nm))"

lemma split_dot_not_Nil: "split_dot nm \<noteq> []"
  by (cases nm) auto

lemma join_dot_Cons_Cons: "join_dot ((c # w) # ws) = c # join_dot (w # ws)"
  by (cases ws) auto

lemma split_dot_single: "(tl (split_dot nm) = []) = (\<not> has_dot nm)"
  by (induction nm) (auto simp: has_dot_def split_dot_not_Nil)

lemma parent_name_le: "length (parent_name nm) \<le> length nm"
proof (induction nm)
  case Nil
  show ?case by (simp add: parent_name_def)
next
  case (Cons c cs)
  obtain w ws where sp: "split_dot cs = w # ws"
    using split_dot_not_Nil [of cs] by (cases "split_dot cs") auto
  show ?case
  proof (cases "c = CHR ''.''")
    case True
    then show ?thesis
      using Cons sp by (cases "butlast (w # ws)") (auto simp: parent_name_def)
  next
    case False
    then show ?thesis
      using Cons sp by (cases ws) (auto simp: parent_name_def join_dot_Cons_Cons)
  qed
qed

lemma parent_name_less: "has_dot nm \<Longrightarrow> length (parent_name nm) < length nm"
proof (induction nm)
  case Nil
  then show ?case by (simp add: has_dot_def)
next
  case (Cons c cs)
  obtain w ws where sp: "split_dot cs = w # ws"
    using split_dot_not_Nil [of cs] by (cases "split_dot cs") auto
  show ?case
  proof (cases "c = CHR ''.''")
    case True
    show ?thesis
    proof (cases "ws = []")
      case True
      with \<open>c = CHR ''.''\<close> sp show ?thesis by (simp add: parent_name_def)
    next
      case False
      then have "has_dot cs" using split_dot_single [of cs] sp by simp
      from Cons.IH [OF this] False \<open>c = CHR ''.''\<close> sp show ?thesis
        by (cases "butlast ws") (auto simp: parent_name_def)
    qed
  next
    case False
    with Cons.prems have hd: "has_dot cs" by (simp add: has_dot_def)
    then have "ws \<noteq> []" using split_dot_single [of cs] sp by simp
    then show ?thesis
      using False Cons.IH [OF hd] sp by (auto simp: parent_name_def join_dot_Cons_Cons)
  qed
qed

subsection \<open>CoverItem\<close>

text \<open>The object as \<^verbatim>\<open>CoverItem.__init__\<close> leaves it (lines 71 to 79).\<close>

definition new_object :: "kind \<Rightarrow> string \<Rightarrow> node" where
  "new_object k nm =
     \<lparr>name = nm, kind = k, u_size = 0, u_coverage = 0, children = [], new_hits = [],
      threshold_callbacks = [], bins_callbacks = [], hits = None,
      weight = 0, at_least = 0, transformation = None, relation = (=),
      injection = False, items = [], f_pass = None, f_fail = (\<lambda>_. False)\<rparr>"

text \<open>Assigning to attributes of the object registered under a name.\<close>

definition modify :: "string \<Rightarrow> (node \<Rightarrow> node) \<Rightarrow> state \<Rightarrow> state" where
  "modify nm f s =
     s\<lparr>coverage_db := (coverage_db s)(nm := map_option f (coverage_db s nm))\<rparr>"

definition call_back :: "event \<Rightarrow> state \<Rightarrow> state" where
  "call_back ev s = s\<lparr>fired := fired s @ [ev]\<rparr>"

text \<open>
  \<^verbatim>\<open>CoverItem.__init__\<close>, lines 70 to 90. A missing parent is created first, as a
  plain \<^verbatim>\<open>CoverItem\<close>; the new object is appended to the parent's children and
  entered into the registry last.
\<close>

function CoverItem_init :: "kind \<Rightarrow> string \<Rightarrow> state \<Rightarrow> state \<times> error option" where
  "CoverItem_init k nm s =
     (if has_dot nm then
        (case (if parent_name nm \<notin> dom (coverage_db s)
               then CoverItem_init Item (parent_name nm) s else (s, None)) of
           (s1, Some e) \<Rightarrow> (s1, Some e)
         | (s1, None) \<Rightarrow>
             (case coverage_db s1 (parent_name nm) of
                None \<Rightarrow> (s1, Some KeyError)
              | Some parent \<Rightarrow>
                  (let s2 = modify (parent_name nm)
                              (\<lambda>p. p\<lparr>children := children p @ [nm]\<rparr>) s1
                   in (s2\<lparr>coverage_db := (coverage_db s2)(nm \<mapsto> new_object k nm)\<rparr>, None))))
      else (s\<lparr>coverage_db := (coverage_db s)(nm \<mapsto> new_object k nm)\<rparr>, None))"
  by pat_completeness auto
termination
  by (relation "measure (\<lambda>(k, nm, s). length nm)") (auto simp: parent_name_less)

declare CoverItem_init.simps [simp del]

text \<open>\<^verbatim>\<open>_update_size\<close>, lines 106 to 111.\<close>

function update_size :: "string \<Rightarrow> int \<Rightarrow> state \<Rightarrow> state" where
  "update_size nm sz s =
     (let s1 = modify nm (\<lambda>self. self\<lparr>u_size := u_size self + sz\<rparr>) s
      in if has_dot nm then update_size (parent_name nm) sz s1 else s1)"
  by pat_completeness auto
termination
  by (relation "measure (\<lambda>(nm, sz, s). length nm)") (auto simp: parent_name_less)

declare update_size.simps [simp del]

subsection \<open>Properties\<close>

definition size_p :: "node \<Rightarrow> int" where
  "size_p self = u_size self"

definition py_div :: "int \<Rightarrow> int \<Rightarrow> error + rat" where
  "py_div a b = (if b = 0 then Inl ZeroDivisionError else Inr (of_int a / of_int b))"

text \<open>
  \<^verbatim>\<open>coverage\<close>: the attribute \<^verbatim>\<open>_coverage\<close> for a plain \<^verbatim>\<open>CoverItem\<close> (line 184), the
  scan of the bins for a \<^verbatim>\<open>CoverPoint\<close> (lines 393 to 398) and a \<^verbatim>\<open>CoverCross\<close>
  (lines 517 to 522), the latch for a \<^verbatim>\<open>CoverCheck\<close> (lines 660 to 664).
\<close>

definition bins_coverage :: "node \<Rightarrow> (pyval \<times> int) list \<Rightarrow> int" where
  "bins_coverage self h =
     fold (\<lambda>(ii, n) coverage. if n < at_least self then coverage - weight self else coverage)
       h (u_size self)"

definition check_coverage :: "node \<Rightarrow> (pyval \<times> int) list \<Rightarrow> error + int" where
  "check_coverage self h =
     (case map_of h (VStr ''FAIL'') of
        None \<Rightarrow> Inl KeyError
      | Some nfail \<Rightarrow>
          if nfail = 0 then
            (case map_of h (VStr ''PASS'') of
               None \<Rightarrow> Inl KeyError
             | Some npass \<Rightarrow> Inr (if npass > at_least self then weight self else 0))
          else Inr 0)"

definition coverage :: "node \<Rightarrow> error + int" where
  "coverage self =
     (case kind self of
        Item \<Rightarrow> Inr (u_coverage self)
      | Point \<Rightarrow> (case hits self of None \<Rightarrow> Inl AttributeError
                                | Some h \<Rightarrow> Inr (bins_coverage self h))
      | Cross \<Rightarrow> (case hits self of None \<Rightarrow> Inl AttributeError
                                | Some h \<Rightarrow> Inr (bins_coverage self h))
      | Check \<Rightarrow> (case hits self of None \<Rightarrow> Inl AttributeError
                                | Some h \<Rightarrow> check_coverage self h))"

text \<open>\<^verbatim>\<open>cover_percentage\<close>, line 197: \<^verbatim>\<open>100 * self.coverage / self.size\<close>.\<close>

definition cover_percentage :: "node \<Rightarrow> error + rat" where
  "cover_percentage self =
     (case coverage self of
        Inl e \<Rightarrow> Inl e
      | Inr c \<Rightarrow> py_div (100 * c) (size_p self))"

text \<open>
  \<^verbatim>\<open>detailed_coverage\<close>. For a plain \<^verbatim>\<open>CoverItem\<close> (lines 209 to 212) the local
  \<^verbatim>\<open>coverage\<close> is a dictionary, and the first iteration of the loop over the children
  looks up its attribute \<^verbatim>\<open>append\<close>, which a dictionary (here \<open>cov\<close>) does not have. The derived
  classes return \<^verbatim>\<open>_hits\<close>.
\<close>

fun detailed_coverage_loop ::
  "string list \<Rightarrow> (pyval \<times> int) list \<Rightarrow> error + (pyval \<times> int) list" where
  "detailed_coverage_loop [] cov = Inr cov"
| "detailed_coverage_loop (child # rest) cov = Inl AttributeError"

definition detailed_coverage :: "node \<Rightarrow> error + (pyval \<times> int) list" where
  "detailed_coverage self =
     (case kind self of
        Item \<Rightarrow> detailed_coverage_loop (children self) []
      | _ \<Rightarrow> (case hits self of None \<Rightarrow> Inl AttributeError | Some h \<Rightarrow> Inr h))"

subsection \<open>Dictionaries\<close>

text \<open>
  A dictionary is the list of its items in insertion order. \<open>dict_set\<close> is the
  assignment \<^verbatim>\<open>d[k] = v\<close> (an existing key keeps its place), \<open>fromkeys\<close> is
  \<^verbatim>\<open>dict.fromkeys\<close>, \<open>incr\<close> is \<^verbatim>\<open>d[k] += 1\<close> for a key of \<^verbatim>\<open>d\<close> (it is used on present
  keys only), \<open>del_key\<close> is \<^verbatim>\<open>del d[k]\<close> for a present key.
\<close>

fun dict_set :: "('k \<times> 'v) list \<Rightarrow> 'k \<Rightarrow> 'v \<Rightarrow> ('k \<times> 'v) list" where
  "dict_set [] k v = [(k, v)]"
| "dict_set ((k', v') # kvs) k v =
     (if k' = k then (k', v) # kvs else (k', v') # dict_set kvs k v)"

definition fromkeys :: "'k list \<Rightarrow> 'v \<Rightarrow> ('k \<times> 'v) list" where
  "fromkeys ks v = fold (\<lambda>k d. dict_set d k v) ks []"

definition incr :: "('k \<times> int) list \<Rightarrow> 'k \<Rightarrow> ('k \<times> int) list" where
  "incr d k = map (\<lambda>(k', n). if k' = k then (k', n + 1) else (k', n)) d"

definition del_key :: "('k \<times> 'v) list \<Rightarrow> 'k \<Rightarrow> ('k \<times> 'v) list" where
  "del_key d k = filter (\<lambda>(k', v). k' \<noteq> k) d"

definition has_key :: "('k \<times> 'v) list \<Rightarrow> 'k \<Rightarrow> bool" where
  "has_key d k = (k \<in> fst ` set d)"

subsection \<open>Callbacks and the propagation of coverage\<close>

definition add_threshold_callback :: "string \<Rightarrow> callback \<Rightarrow> int \<Rightarrow> state \<Rightarrow> state" where
  "add_threshold_callback nm cb threshold s =
     modify nm (\<lambda>self. self\<lparr>threshold_callbacks :=
                              dict_set (threshold_callbacks self) threshold cb\<rparr>) s"

definition add_bins_callback :: "string \<Rightarrow> callback \<Rightarrow> pyval \<Rightarrow> state \<Rightarrow> state" where
  "add_bins_callback nm cb bins s =
     modify nm (\<lambda>self. self\<lparr>bins_callbacks := dict_set (bins_callbacks self) bins cb\<rparr>) s"

text \<open>
  The loop over the threshold callbacks: lines 101 to 104 in \<^verbatim>\<open>_update_coverage\<close>, and
  the same loop at lines 384 to 387, 508 to 511 and 645 to 648, where the upper bound
  \<^verbatim>\<open>100 * self.coverage / self.size\<close> is \<^verbatim>\<open>cover_percentage\<close> written out. The first
  comparand is computed for every callback, the second only when the first
  comparison holds.
\<close>

fun threshold_loop ::
  "string \<Rightarrow> node \<Rightarrow> int \<Rightarrow> (int \<times> callback) list \<Rightarrow> state \<Rightarrow> state \<times> error option" where
  "threshold_loop nm self current_coverage [] s = (s, None)"
| "threshold_loop nm self current_coverage ((ii, cb) # rest) s =
     (case py_div (100 * current_coverage) (size_p self) of
        Inl e \<Rightarrow> (s, Some e)
      | Inr lo \<Rightarrow>
          if of_int ii > lo then
            (case cover_percentage self of
               Inl e \<Rightarrow> (s, Some e)
             | Inr hi \<Rightarrow>
                 if of_int ii \<le> hi
                 then threshold_loop nm self current_coverage rest
                        (call_back (ThresholdFired nm ii cb) s)
                 else threshold_loop nm self current_coverage rest s)
          else threshold_loop nm self current_coverage rest s)"

text \<open>
  \<^verbatim>\<open>_update_coverage\<close>, lines 92 to 104: add the delta, pass it to the parent, then
  look at the own threshold callbacks. An exception in an ancestor's loop leaves this
  object's callbacks unvisited.
\<close>

function update_coverage :: "string \<Rightarrow> int \<Rightarrow> state \<Rightarrow> state \<times> error option" where
  "update_coverage nm delta s =
     (case coverage_db s nm of
        None \<Rightarrow> (s, Some KeyError)
      | Some self \<Rightarrow>
          (let current_coverage = u_coverage self;
               self1 = self\<lparr>u_coverage := u_coverage self + delta\<rparr>;
               s1 = s\<lparr>coverage_db := (coverage_db s)(nm \<mapsto> self1)\<rparr>
           in case (if has_dot nm then update_coverage (parent_name nm) delta s1
                    else (s1, None)) of
                (s2, Some e) \<Rightarrow> (s2, Some e)
              | (s2, None) \<Rightarrow>
                  threshold_loop nm self1 current_coverage (threshold_callbacks self1) s2))"
  by pat_completeness auto
termination
  by (relation "measure (\<lambda>(nm, delta, s). length nm)") (auto simp: parent_name_less)

declare update_coverage.simps [simp del]

subsection \<open>CoverPoint\<close>

text \<open>
  \<^verbatim>\<open>CoverPoint.__init__\<close>, lines 287 to 318. \<open>xf\<close> and \<open>rel\<close> are \<open>None\<close> when the
  arguments are left out; \<^verbatim>\<open>vname\<close> is left out.
\<close>

definition CoverPoint_init ::
  "string \<Rightarrow> (pyval list \<Rightarrow> pyval) option \<Rightarrow> (pyval \<Rightarrow> pyval \<Rightarrow> bool) option \<Rightarrow> pyval list \<Rightarrow>
   int \<Rightarrow> int \<Rightarrow> bool \<Rightarrow> state \<Rightarrow> state \<times> error option" where
  "CoverPoint_init nm xf rel bins wt al inj' s =
     (if nm \<notin> dom (coverage_db s) then
        (case CoverItem_init Point nm s of
           (s1, Some e) \<Rightarrow> (s1, Some e)
         | (s1, None) \<Rightarrow>
             if \<not> has_dot nm then (s1, Some NoParent)
             else
               (let sz = (if length bins \<noteq> 0 then wt * int (length bins) else wt);
                    h = (if length bins \<noteq> 0 then fromkeys bins 0 else fromkeys [VInt 1] 0);
                    s2 = modify nm (\<lambda>self. self
                           \<lparr>transformation := xf,
                            relation := (case rel of None \<Rightarrow> (=) | Some r \<Rightarrow> r),
                            weight := wt, at_least := al, injection := inj',
                            u_size := sz, hits := Some h\<rparr>) s1;
                    s3 = update_size (parent_name nm) sz s2
                in (modify nm (\<lambda>self. self\<lparr>new_hits := []\<rparr>) s3, None)))
      else (s, None))"

text \<open>
  The call \<^verbatim>\<open>CoverPoint(name, ...)\<close>: \<^verbatim>\<open>__new__\<close> (lines 280 to 285) returns the
  registered object when there is one, and Python then runs \<^verbatim>\<open>__init__\<close> on what
  \<^verbatim>\<open>__new__\<close> returned when that is a \<^verbatim>\<open>CoverPoint\<close>. The result is the state and the
  object returned (its registry key), or the exception.
\<close>

definition CoverPoint ::
  "string \<Rightarrow> (pyval list \<Rightarrow> pyval) option \<Rightarrow> (pyval \<Rightarrow> pyval \<Rightarrow> bool) option \<Rightarrow> pyval list \<Rightarrow>
   int \<Rightarrow> int \<Rightarrow> bool \<Rightarrow> state \<Rightarrow> state \<times> (error + string)" where
  "CoverPoint nm xf rel bins wt al inj' s =
     (if (case coverage_db s nm of None \<Rightarrow> True | Some obj \<Rightarrow> kind obj = Point) then
        (case CoverPoint_init nm xf rel bins wt al inj' s of
           (s', Some e) \<Rightarrow> (s', Inl e)
         | (s', None) \<Rightarrow> (s', Inr nm))
      else (s, Inr nm))"

text \<open>The default transformation, lines 327 to 331.\<close>

definition dummy_f :: "pyval list \<Rightarrow> error + pyval" where
  "dummy_f cb_args =
     (if length cb_args > 1 then Inr (VTuple cb_args)
      else (case cb_args of [] \<Rightarrow> Inl IndexError | a # _ \<Rightarrow> Inr a))"

text \<open>
  The loop over the bins, lines 369 to 378: the new bin table, the bins hit and the
  bins callbacks called.
\<close>

fun match_bins ::
  "string \<Rightarrow> node \<Rightarrow> pyval \<Rightarrow> (pyval \<times> int) list \<Rightarrow>
   (pyval \<times> int) list \<times> pyval list \<times> event list" where
  "match_bins nm self result [] = ([], [], [])"
| "match_bins nm self result ((bins, n) # rest) =
     (if relation self result bins then
        (let evs = (case map_of (bins_callbacks self) bins of
                      None \<Rightarrow> [] | Some cb \<Rightarrow> [BinsFired nm bins cb])
         in if \<not> injection self then ((bins, n + 1) # rest, [bins], evs)
            else (case match_bins nm self result rest of
                    (rest', nh, evs') \<Rightarrow> ((bins, n + 1) # rest', bins # nh, evs @ evs')))
      else (case match_bins nm self result rest of
              (rest', nh, evs') \<Rightarrow> ((bins, n) # rest', nh, evs')))"

text \<open>The sampling of a \<^verbatim>\<open>CoverPoint\<close>, lines 358 to 387 of \<^verbatim>\<open>_wrapped_function\<close>.\<close>

definition CoverPoint_call :: "string \<Rightarrow> pyval list \<Rightarrow> state \<Rightarrow> state \<times> error option" where
  "CoverPoint_call nm cb_args s =
     (case coverage_db s nm of
        None \<Rightarrow> (s, Some KeyError)
      | Some self \<Rightarrow>
          (case hits self of
             None \<Rightarrow> (s, Some AttributeError)
           | Some h \<Rightarrow>
               (let current_coverage = bins_coverage self h;
                    s1 = modify nm (\<lambda>self. self\<lparr>new_hits := []\<rparr>) s
                in case (case transformation self of
                           None \<Rightarrow> dummy_f cb_args | Some xf \<Rightarrow> Inr (xf cb_args)) of
                     Inl e \<Rightarrow> (s1, Some e)
                   | Inr result \<Rightarrow>
                       (case match_bins nm self result h of
                          (h', nh, evs) \<Rightarrow>
                            (let self' = self\<lparr>hits := Some h', new_hits := nh\<rparr>;
                                 s2 = s\<lparr>coverage_db := (coverage_db s)(nm \<mapsto> self'),
                                        fired := fired s @ evs\<rparr>
                             in if \<not> has_dot nm then (s2, Some AttributeError)
                                else
                                  (case update_coverage (parent_name nm)
                                          (bins_coverage self' h' - current_coverage) s2 of
                                     (s3, Some e) \<Rightarrow> (s3, Some e)
                                   | (s3, None) \<Rightarrow>
                                       threshold_loop nm self' current_coverage
                                         (threshold_callbacks self') s3))))))"

subsection \<open>CoverCross\<close>

text \<open>\<^verbatim>\<open>itertools.product\<close> of a list of lists: the last position varies fastest.\<close>

fun itertools_product :: "'a list list \<Rightarrow> 'a list list" where
  "itertools_product [] = [[]]"
| "itertools_product (xs # xss) =
     concat (map (\<lambda>x. map (\<lambda>t. x # t) (itertools_product xss)) xs)"

text \<open>Lines 463 to 466: the bins of the items, read from the registry.\<close>

fun bins_lists_of :: "string list \<Rightarrow> state \<Rightarrow> error + pyval list list" where
  "bins_lists_of [] s = Inr []"
| "bins_lists_of (cp_names # rest) s =
     (case coverage_db s cp_names of
        None \<Rightarrow> Inl KeyError
      | Some cp \<Rightarrow>
          (case detailed_coverage cp of
             Inl e \<Rightarrow> Inl e
           | Inr d \<Rightarrow>
               (case bins_lists_of rest s of
                  Inl e \<Rightarrow> Inl e
                | Inr bl \<Rightarrow> Inr (map fst d # bl))))"

text \<open>
  Lines 474 to 478, for one cross-bin and one ignore pattern: \<^verbatim>\<open>remove\<close> after the
  loop over the positions of the cross-bin. A pattern shorter than the cross-bin
  raises \<^verbatim>\<open>IndexError\<close> at the first position it lacks.
\<close>

fun ignore_match :: "pyval list \<Rightarrow> pyval list \<Rightarrow> error + bool" where
  "ignore_match ignore_bins [] = Inr True"
| "ignore_match [] (x # x_bins) = Inl IndexError"
| "ignore_match (i # ignore_bins) (x # x_bins) =
     (case ignore_match ignore_bins x_bins of
        Inl e \<Rightarrow> Inl e
      | Inr remove \<Rightarrow> Inr (if i \<noteq> VNone \<and> i \<noteq> x then False else remove))"

text \<open>Lines 473 to 480: the loop over the ignore patterns, for one cross-bin.\<close>

fun ignore_loop ::
  "pyval list list \<Rightarrow> pyval list \<Rightarrow> (pyval \<times> int) list \<Rightarrow> (pyval \<times> int) list \<times> error option" where
  "ignore_loop [] x_bins h = (h, None)"
| "ignore_loop (ignore_bins # rest) x_bins h =
     (case ignore_match ignore_bins x_bins of
        Inl e \<Rightarrow> (h, Some e)
      | Inr remove \<Rightarrow>
          ignore_loop rest x_bins
            (if remove \<and> has_key h (VTuple x_bins) then del_key h (VTuple x_bins) else h))"

text \<open>
  Lines 472 to 480: the loop over the cross-bins present before the removal. The
  cross-bins are tuples; \<^verbatim>\<open>len\<close> of an integer or of \<^verbatim>\<open>None\<close> is a \<^verbatim>\<open>TypeError\<close>.
\<close>

fun remove_ignored ::
  "pyval list list \<Rightarrow> pyval list \<Rightarrow> (pyval \<times> int) list \<Rightarrow> (pyval \<times> int) list \<times> error option" where
  "remove_ignored ign_bins [] h = (h, None)"
| "remove_ignored ign_bins (VTuple x_bins # rest) h =
     (case ignore_loop ign_bins x_bins h of
        (h', Some e) \<Rightarrow> (h', Some e)
      | (h', None) \<Rightarrow> remove_ignored ign_bins rest h')"
| "remove_ignored ign_bins (x # rest) h =
     (if ign_bins = [] then remove_ignored ign_bins rest h else (h, Some TypeError))"

text \<open>\<^verbatim>\<open>CoverCross.__init__\<close>, lines 451 to 483.\<close>

definition CoverCross_init ::
  "string \<Rightarrow> string list \<Rightarrow> pyval list list \<Rightarrow> int \<Rightarrow> int \<Rightarrow> state \<Rightarrow> state \<times> error option" where
  "CoverCross_init nm its ign_bins wt al s =
     (if nm \<notin> dom (coverage_db s) then
        (case CoverItem_init Cross nm s of
           (s1, Some e) \<Rightarrow> (s1, Some e)
         | (s1, None) \<Rightarrow>
             if \<not> has_dot nm then (s1, Some NoParent)
             else
               (let s2 = modify nm (\<lambda>self. self\<lparr>weight := wt, at_least := al, items := its\<rparr>) s1
                in case bins_lists_of its s2 of
                     Inl e \<Rightarrow> (s2, Some e)
                   | Inr bins_lists \<Rightarrow>
                       (let h0 = fromkeys (map VTuple (itertools_product bins_lists)) 0;
                            s3 = modify nm (\<lambda>self. self\<lparr>hits := Some h0\<rparr>) s2
                        in case remove_ignored ign_bins (map fst h0) h0 of
                             (h1, Some e) \<Rightarrow>
                               (modify nm (\<lambda>self. self\<lparr>hits := Some h1\<rparr>) s3, Some e)
                           | (h1, None) \<Rightarrow>
                               (let sz = wt * int (length h1);
                                    s4 = modify nm (\<lambda>self. self\<lparr>hits := Some h1, u_size := sz\<rparr>) s3
                                in (update_size (parent_name nm) sz s4, None)))))
      else (s, None))"

definition CoverCross ::
  "string \<Rightarrow> string list \<Rightarrow> pyval list list \<Rightarrow> int \<Rightarrow> int \<Rightarrow> state \<Rightarrow> state \<times> (error + string)" where
  "CoverCross nm its ign_bins wt al s =
     (if (case coverage_db s nm of None \<Rightarrow> True | Some obj \<Rightarrow> kind obj = Cross) then
        (case CoverCross_init nm its ign_bins wt al s of
           (s', Some e) \<Rightarrow> (s', Inl e)
         | (s', None) \<Rightarrow> (s', Inr nm))
      else (s, Inr nm))"

text \<open>Lines 491 to 493: the bins that the items hit at their last sampling.\<close>

fun hit_lists_of :: "string list \<Rightarrow> state \<Rightarrow> error + pyval list list" where
  "hit_lists_of [] s = Inr []"
| "hit_lists_of (cp_name # rest) s =
     (case coverage_db s cp_name of
        None \<Rightarrow> Inl KeyError
      | Some cp \<Rightarrow>
          (case hit_lists_of rest s of
             Inl e \<Rightarrow> Inl e
           | Inr hl \<Rightarrow> Inr (new_hits cp # hl)))"

text \<open>Lines 497 to 502: the loop over the cross-bins hit.\<close>

fun cross_hit_loop ::
  "string \<Rightarrow> node \<Rightarrow> pyval list \<Rightarrow> (pyval \<times> int) list \<Rightarrow> (pyval \<times> int) list \<times> event list" where
  "cross_hit_loop nm self [] h = (h, [])"
| "cross_hit_loop nm self (x_bins_hit # rest) h =
     (if has_key h x_bins_hit then
        (let evs = (case map_of (bins_callbacks self) x_bins_hit of
                      None \<Rightarrow> [] | Some cb \<Rightarrow> [BinsFired nm x_bins_hit cb])
         in case cross_hit_loop nm self rest (incr h x_bins_hit) of
              (h', evs') \<Rightarrow> (h', evs @ evs'))
      else cross_hit_loop nm self rest h)"

text \<open>The sampling of a \<^verbatim>\<open>CoverCross\<close>, lines 489 to 511.\<close>

definition CoverCross_call :: "string \<Rightarrow> state \<Rightarrow> state \<times> error option" where
  "CoverCross_call nm s =
     (case coverage_db s nm of
        None \<Rightarrow> (s, Some KeyError)
      | Some self \<Rightarrow>
          (case hits self of
             None \<Rightarrow> (s, Some AttributeError)
           | Some h \<Rightarrow>
               (let current_coverage = bins_coverage self h
                in case hit_lists_of (items self) s of
                     Inl e \<Rightarrow> (s, Some e)
                   | Inr hit_lists \<Rightarrow>
                       (case cross_hit_loop nm self
                               (map VTuple (itertools_product hit_lists)) h of
                          (h', evs) \<Rightarrow>
                            (let self' = self\<lparr>hits := Some h'\<rparr>;
                                 s2 = s\<lparr>coverage_db := (coverage_db s)(nm \<mapsto> self'),
                                        fired := fired s @ evs\<rparr>
                             in if \<not> has_dot nm then (s2, Some AttributeError)
                                else
                                  (case update_coverage (parent_name nm)
                                          (bins_coverage self' h' - current_coverage) s2 of
                                     (s3, Some e) \<Rightarrow> (s3, Some e)
                                   | (s3, None) \<Rightarrow>
                                       threshold_loop nm self' current_coverage
                                         (threshold_callbacks self') s3))))))"

subsection \<open>CoverCheck\<close>

text \<open>\<^verbatim>\<open>CoverCheck.__init__\<close>, lines 568 to 587.\<close>

definition CoverCheck_init ::
  "string \<Rightarrow> (pyval list \<Rightarrow> bool) \<Rightarrow> (pyval list \<Rightarrow> bool) option \<Rightarrow> int \<Rightarrow> int \<Rightarrow>
   state \<Rightarrow> state \<times> error option" where
  "CoverCheck_init nm ff fp wt al s =
     (if nm \<notin> dom (coverage_db s) then
        (case CoverItem_init Check nm s of
           (s1, Some e) \<Rightarrow> (s1, Some e)
         | (s1, None) \<Rightarrow>
             if \<not> has_dot nm then (s1, Some NoParent)
             else
               (let s2 = modify nm (\<lambda>self. self
                           \<lparr>weight := wt, at_least := al, f_pass := fp, f_fail := ff,
                            u_size := wt,
                            hits := Some (fromkeys [VStr ''PASS'', VStr ''FAIL''] 0)\<rparr>) s1
                in (update_size (parent_name nm) wt s2, None)))
      else (s, None))"

definition CoverCheck ::
  "string \<Rightarrow> (pyval list \<Rightarrow> bool) \<Rightarrow> (pyval list \<Rightarrow> bool) option \<Rightarrow> int \<Rightarrow> int \<Rightarrow>
   state \<Rightarrow> state \<times> (error + string)" where
  "CoverCheck nm ff fp wt al s =
     (if (case coverage_db s nm of None \<Rightarrow> True | Some obj \<Rightarrow> kind obj = Check) then
        (case CoverCheck_init nm ff fp wt al s of
           (s', Some e) \<Rightarrow> (s', Inl e)
         | (s', None) \<Rightarrow> (s', Inr nm))
      else (s, Inr nm))"

text \<open>\<^verbatim>\<open>self._bins_callbacks[bins]()\<close>, for a key of the dictionary.\<close>

definition call_bins_callback :: "string \<Rightarrow> node \<Rightarrow> pyval \<Rightarrow> state \<Rightarrow> state" where
  "call_bins_callback nm self bins s =
     (case map_of (bins_callbacks self) bins of
        None \<Rightarrow> s
      | Some cb \<Rightarrow> call_back (BinsFired nm bins cb) s)"

text \<open>
  The truth value of \<^verbatim>\<open>passed\<close>, which is \<^verbatim>\<open>True\<close>, \<^verbatim>\<open>False\<close> or \<^verbatim>\<open>None\<close>: \<^verbatim>\<open>None\<close> and
  \<^verbatim>\<open>False\<close> are both false in a condition.
\<close>

fun truthy :: "bool option \<Rightarrow> bool" where
  "truthy None = False"
| "truthy (Some b) = b"

text \<open>
  Lines 594 to 597 and 621 to 632: \<^verbatim>\<open>passed\<close> is \<^verbatim>\<open>True\<close> or \<^verbatim>\<open>None\<close> after the pass
  function (always true when \<^verbatim>\<open>f_pass\<close> was left out), and \<^verbatim>\<open>False\<close> when the fail
  function holds.
\<close>

definition check_passed :: "node \<Rightarrow> pyval list \<Rightarrow> bool option" where
  "check_passed self cb_args =
     (let passed = (if (case f_pass self of None \<Rightarrow> True | Some fp \<Rightarrow> fp cb_args)
                    then Some True else None)
      in if f_fail self cb_args then Some False else passed)"

text \<open>Lines 634 to 637: \<^verbatim>\<open>if passed: ... elif not passed: ...\<close>.\<close>

definition check_count :: "bool option \<Rightarrow> (pyval \<times> int) list \<Rightarrow> (pyval \<times> int) list" where
  "check_count passed h =
     (if truthy passed then incr h (VStr ''PASS'')
      else if \<not> truthy passed then incr h (VStr ''FAIL'')
      else h)"

text \<open>Lines 650 to 654: the bins callbacks of a \<^verbatim>\<open>CoverCheck\<close>.\<close>

definition check_bins_callbacks :: "string \<Rightarrow> node \<Rightarrow> bool option \<Rightarrow> state \<Rightarrow> state" where
  "check_bins_callbacks nm self passed s =
     (if has_key (bins_callbacks self) (VStr ''PASS'') \<and> truthy passed
      then call_bins_callback nm self (VStr ''PASS'') s
      else if has_key (bins_callbacks self) (VStr ''FAIL'') \<and> \<not> truthy passed
      then call_bins_callback nm self (VStr ''FAIL'') s
      else s)"

text \<open>The sampling of a \<^verbatim>\<open>CoverCheck\<close>, lines 618 to 654.\<close>

definition CoverCheck_call :: "string \<Rightarrow> pyval list \<Rightarrow> state \<Rightarrow> state \<times> error option" where
  "CoverCheck_call nm cb_args s =
     (case coverage_db s nm of
        None \<Rightarrow> (s, Some KeyError)
      | Some self \<Rightarrow>
          (case hits self of
             None \<Rightarrow> (s, Some AttributeError)
           | Some h \<Rightarrow>
               (case check_coverage self h of
                  Inl e \<Rightarrow> (s, Some e)
                | Inr current_coverage \<Rightarrow>
                    (let passed = check_passed self cb_args;
                         h' = check_count passed h;
                         self' = self\<lparr>hits := Some h'\<rparr>;
                         s1 = s\<lparr>coverage_db := (coverage_db s)(nm \<mapsto> self')\<rparr>
                     in if passed \<noteq> None then
                          (case check_coverage self' h' of
                             Inl e \<Rightarrow> (s1, Some e)
                           | Inr cov \<Rightarrow>
                               if \<not> has_dot nm then (s1, Some AttributeError)
                               else
                                 (case update_coverage (parent_name nm)
                                         (cov - current_coverage) s1 of
                                    (s2, Some e) \<Rightarrow> (s2, Some e)
                                  | (s2, None) \<Rightarrow>
                                      (case threshold_loop nm self' current_coverage
                                              (threshold_callbacks self') s2 of
                                         (s3, Some e) \<Rightarrow> (s3, Some e)
                                       | (s3, None) \<Rightarrow>
                                           (check_bins_callbacks nm self' passed s3, None))))
                        else (s1, None)))))"

subsection \<open>Sampling events\<close>

text \<open>
  A sampling event is a call of the function that an object of the registry
  decorates; the class of the object selects the code. A plain \<^verbatim>\<open>CoverItem\<close> has no
  \<^verbatim>\<open>__call__\<close>.
\<close>

definition sample :: "string \<Rightarrow> pyval list \<Rightarrow> state \<Rightarrow> state \<times> error option" where
  "sample nm cb_args s =
     (case coverage_db s nm of
        None \<Rightarrow> (s, Some KeyError)
      | Some obj \<Rightarrow>
          (case kind obj of
             Item \<Rightarrow> (s, Some TypeError)
           | Point \<Rightarrow> CoverPoint_call nm cb_args s
           | Cross \<Rightarrow> CoverCross_call nm s
           | Check \<Rightarrow> CoverCheck_call nm cb_args s))"

fun samples :: "(string \<times> pyval list) list \<Rightarrow> state \<Rightarrow> state" where
  "samples [] s = s"
| "samples ((nm, cb_args) # rest) s = samples rest (fst (sample nm cb_args s))"

section \<open>Reading the registry\<close>

text \<open>
  \<^verbatim>\<open>coverage_db[name].coverage\<close> and the other properties, read through the registry.
\<close>

definition coverage_at :: "state \<Rightarrow> string \<Rightarrow> error + int" where
  "coverage_at s nm =
     (case coverage_db s nm of None \<Rightarrow> Inl KeyError | Some obj \<Rightarrow> coverage obj)"

definition size_at :: "state \<Rightarrow> string \<Rightarrow> error + int" where
  "size_at s nm =
     (case coverage_db s nm of None \<Rightarrow> Inl KeyError | Some obj \<Rightarrow> Inr (size_p obj))"

definition cover_percentage_at :: "state \<Rightarrow> string \<Rightarrow> error + rat" where
  "cover_percentage_at s nm =
     (case coverage_db s nm of None \<Rightarrow> Inl KeyError | Some obj \<Rightarrow> cover_percentage obj)"

definition detailed_coverage_at :: "state \<Rightarrow> string \<Rightarrow> error + (pyval \<times> int) list" where
  "detailed_coverage_at s nm =
     (case coverage_db s nm of None \<Rightarrow> Inl KeyError | Some obj \<Rightarrow> detailed_coverage obj)"

text \<open>An object, its parent, the parent of its parent, and so on.\<close>

function path :: "string \<Rightarrow> string list" where
  "path nm = nm # (if has_dot nm then path (parent_name nm) else [])"
  by pat_completeness auto
termination
  by (relation "measure length") (auto simp: parent_name_less)

declare path.simps [simp del]

text \<open>
  What \<^verbatim>\<open>CoverItem.__init__\<close> for \<open>nm\<close> does to the entry of another name \<open>m\<close>: an
  object keeps everything but its list of children, and an absent name stays absent
  or, on the path of \<open>nm\<close>, becomes a fresh plain \<^verbatim>\<open>CoverItem\<close>.
\<close>

definition no_children :: "node \<Rightarrow> node" where
  "no_children n = n\<lparr>children := []\<rparr>"

definition init_rel :: "string \<Rightarrow> string \<Rightarrow> node option \<Rightarrow> node option \<Rightarrow> bool" where
  "init_rel nm m old new =
     (if old = None
      then new = None \<or>
           (m \<in> set (path nm) \<and> map_option no_children new = Some (new_object Item m))
      else map_option no_children new = map_option no_children old)"

section \<open>Example registries\<close>

text \<open>
  The check of the class documentation: \<^verbatim>\<open>f_fail = lambda x: x == 0\<close>,
  \<^verbatim>\<open>f_pass = lambda x: x < 5\<close>, registered as \<^verbatim>\<open>top.check\<close> in an empty registry.
\<close>

definition x_eq_0 :: "pyval list \<Rightarrow> bool" where
  "x_eq_0 cb_args = (case cb_args of [VInt x] \<Rightarrow> x = 0 | _ \<Rightarrow> False)"

definition x_lt_5 :: "pyval list \<Rightarrow> bool" where
  "x_lt_5 cb_args = (case cb_args of [VInt x] \<Rightarrow> x < 5 | _ \<Rightarrow> False)"

definition check_example :: "int \<Rightarrow> int \<Rightarrow> state" where
  "check_example wt al =
     fst (CoverCheck ''top.check'' x_eq_0 (Some x_lt_5) wt al empty_state)"

text \<open>
  The cross of the specification's example: two points with the bins 1 and 2, the
  first sampling the first argument of the decorated function and the second the
  second (\<^verbatim>\<open>xf = lambda x, y: x\<close> and \<^verbatim>\<open>xf = lambda x, y: y\<close>), and a cross of the two
  with \<^verbatim>\<open>ign_bins = [(1, 1)]\<close>.
\<close>

definition first_arg :: "pyval list \<Rightarrow> pyval" where
  "first_arg cb_args = (case cb_args of [x, y] \<Rightarrow> x | _ \<Rightarrow> VNone)"

definition second_arg :: "pyval list \<Rightarrow> pyval" where
  "second_arg cb_args = (case cb_args of [x, y] \<Rightarrow> y | _ \<Rightarrow> VNone)"

definition two_points :: state where
  "two_points =
     fst (CoverPoint ''top.b'' (Some second_arg) None [VInt 1, VInt 2] 1 1 False
       (fst (CoverPoint ''top.a'' (Some first_arg) None [VInt 1, VInt 2] 1 1 False
          empty_state)))"

definition cross_example :: "int \<Rightarrow> int \<Rightarrow> state" where
  "cross_example wt al =
     fst (CoverCross ''top.cross'' [''top.a'', ''top.b''] [[VInt 1, VInt 1]] wt al two_points)"

section \<open>Auxiliary notions\<close>

text \<open>Adding a delta to the attribute \<^verbatim>\<open>_coverage\<close> of the objects of a list of names.\<close>

definition add_coverage :: "string list \<Rightarrow> int \<Rightarrow> (string \<rightharpoonup> node) \<Rightarrow> (string \<rightharpoonup> node)" where
  "add_coverage nms delta db =
     (\<lambda>m. if m \<in> set nms
          then map_option (\<lambda>n. n\<lparr>u_coverage := u_coverage n + delta\<rparr>) (db m)
          else db m)"

text \<open>The calls of threshold callbacks of the objects of a list of names.\<close>

definition threshold_events :: "string list \<Rightarrow> event list \<Rightarrow> bool" where
  "threshold_events nms evs =
     (\<forall>ev \<in> set evs. \<exists>m ii cb. ev = ThresholdFired m ii cb \<and> m \<in> set nms)"

text \<open>
  What a sampling event can change in an object: the attribute \<^verbatim>\<open>_coverage\<close>, the
  list \<^verbatim>\<open>_new_hits\<close> and the hit counts, which do not decrease. \<open>static\<close> erases the
  three; everything else, the bins of the bin table included, stays.
\<close>

definition static :: "node \<Rightarrow> node" where
  "static n = n\<lparr>u_coverage := 0, new_hits := [],
                hits := map_option (map (\<lambda>kc. (fst kc, 0))) (hits n)\<rparr>"

definition hits_le :: "(pyval \<times> int) list option \<Rightarrow> (pyval \<times> int) list option \<Rightarrow> bool" where
  "hits_le a b =
     (case a of
        None \<Rightarrow> b = None
      | Some h \<Rightarrow> (case b of None \<Rightarrow> False
                            | Some h' \<Rightarrow> list_all2 (\<lambda>x y. snd x \<le> snd y) h h'))"

definition evolves :: "node \<Rightarrow> node \<Rightarrow> bool" where
  "evolves n n' = (static n' = static n \<and> hits_le (hits n) (hits n'))"

definition db_evolves :: "(string \<rightharpoonup> node) \<Rightarrow> (string \<rightharpoonup> node) \<Rightarrow> bool" where
  "db_evolves db db' = (\<forall>x. rel_option evolves (db x) (db' x))"

text \<open>
  The registry of the documented check, given the weight and \<^verbatim>\<open>at_least\<close> of the check,
  its PASS and FAIL counts and the attribute \<^verbatim>\<open>_coverage\<close> of \<^verbatim>\<open>top\<close>.
\<close>

definition check_registry :: "int \<Rightarrow> int \<Rightarrow> int \<Rightarrow> int \<Rightarrow> int \<Rightarrow> state" where
  "check_registry wt al npass nfail cov =
     \<lparr>coverage_db =
        [''top'' \<mapsto> (new_object Item ''top'')
            \<lparr>u_size := wt, u_coverage := cov, children := [''top.check'']\<rparr>,
         ''top.check'' \<mapsto> (new_object Check ''top.check'')
            \<lparr>u_size := wt, weight := wt, at_least := al, f_pass := Some x_lt_5, f_fail := x_eq_0,
             hits := Some [(VStr ''PASS'', npass), (VStr ''FAIL'', nfail)]\<rparr>],
      fired = []\<rparr>"

definition check_registry_coverage :: "int \<Rightarrow> int \<Rightarrow> int \<Rightarrow> int \<Rightarrow> int" where
  "check_registry_coverage wt al npass nfail = (if nfail = 0 \<and> npass > al then wt else 0)"

text \<open>
  A coverage delta is applied at an object when \<^verbatim>\<open>_update_coverage\<close> runs on it (the
  delta comes from a descendant) or when the object itself is sampled, and the call
  returns.
\<close>

definition delta_applied :: "string \<Rightarrow> state \<Rightarrow> state \<Rightarrow> bool" where
  "delta_applied nm s s' =
     ((\<exists>delta. update_coverage nm delta s = (s', None)) \<or>
      (\<exists>cb_args. sample nm cb_args s = (s', None)))"

text \<open>The calls that the loop over the threshold callbacks of an object makes.\<close>

definition threshold_calls ::
  "string \<Rightarrow> int \<Rightarrow> int \<Rightarrow> int \<Rightarrow> (int \<times> callback) list \<Rightarrow> event list" where
  "threshold_calls nm sz c0 c1 cbs =
     map (\<lambda>(ii, cb). ThresholdFired nm ii cb)
       (filter (\<lambda>(ii, cb). of_int ii > (of_int (100 * c0) / of_int sz :: rat) \<and>
                            of_int ii \<le> (of_int (100 * c1) / of_int sz :: rat)) cbs)"

definition not_threshold_of :: "string \<Rightarrow> event list \<Rightarrow> bool" where
  "not_threshold_of nm evs = (\<forall>ev \<in> set evs. \<forall>ii cb. ev \<noteq> ThresholdFired nm ii cb)"

text \<open>
  A point \<^verbatim>\<open>top.p\<close> with the bins 1, 2, 3, 4 (size 4), and a threshold callback at 50
  on the point (callback 8) and on its parent \<^verbatim>\<open>top\<close> (callback 7).
\<close>

definition point_example :: state where
  "point_example =
     add_threshold_callback ''top'' 7 50
       (add_threshold_callback ''top.p'' 8 50
          (fst (CoverPoint ''top.p'' None None [VInt 1, VInt 2, VInt 3, VInt 4] 1 1 False
                  empty_state)))"

text \<open>The same registry, given the hit counts, the last hits, the coverage of \<^verbatim>\<open>top\<close>
  and the callbacks called.\<close>

definition point_registry :: "int list \<Rightarrow> pyval list \<Rightarrow> int \<Rightarrow> event list \<Rightarrow> state" where
  "point_registry counts nh cov evs =
     \<lparr>coverage_db =
        [''top'' \<mapsto> (new_object Item ''top'')
            \<lparr>u_size := 4, u_coverage := cov, children := [''top.p''],
             threshold_callbacks := [(50, 7)]\<rparr>,
         ''top.p'' \<mapsto> (new_object Point ''top.p'')
            \<lparr>u_size := 4, weight := 1, at_least := 1, new_hits := nh,
             threshold_callbacks := [(50, 8)],
             hits := Some (zip [VInt 1, VInt 2, VInt 3, VInt 4] counts)\<rparr>],
      fired = evs\<rparr>"

text \<open>
  A cross of the two points whose only ignore pattern is \<^verbatim>\<open>(None, None)\<close>, and the
  registry after a point \<^verbatim>\<open>top.cross.p\<close> with one bin is registered beneath it.
\<close>

definition wildcard_cross :: state where
  "wildcard_cross =
     fst (CoverCross ''top.cross'' [''top.a'', ''top.b''] [[VNone, VNone]] 1 1 two_points)"

definition wildcard_cross_child :: state where
  "wildcard_cross_child =
     fst (CoverPoint ''top.cross.p'' None None [VInt 1] 1 1 False wildcard_cross)"

text \<open>Adding to the attribute \<^verbatim>\<open>_size\<close> of the objects of a list of names.\<close>

definition add_size :: "string list \<Rightarrow> int \<Rightarrow> (string \<rightharpoonup> node) \<Rightarrow> (string \<rightharpoonup> node)" where
  "add_size nms sz db =
     (\<lambda>m. if m \<in> set nms
          then map_option (\<lambda>n. n\<lparr>u_size := u_size n + sz\<rparr>) (db m)
          else db m)"

section \<open>The bounds of coverage\<close>

text \<open>The objects above an object: its parent, the parent of its parent, and so on.\<close>

definition ancestors :: "string \<Rightarrow> string list" where
  "ancestors nm = (if has_dot nm then path (parent_name nm) else [])"

text \<open>A registry holds the parent of every object whose name has a dot.\<close>

definition closed :: "(string \<rightharpoonup> node) \<Rightarrow> bool" where
  "closed db = (\<forall>m \<in> dom db. has_dot m \<longrightarrow> parent_name m \<in> dom db)"

text \<open>
  What the sampling of an object can still add to the coverage of its ancestors
  (\<open>up\<close>) and take from it (\<open>down\<close>). For a point and a cross: the weight for every
  bin with fewer than \<^verbatim>\<open>at_least\<close> hits, and nothing. For a check that has not failed:
  the weight while it is not covered, and its coverage. For a check that has failed:
  nothing.
\<close>

definition unhit :: "node \<Rightarrow> (pyval \<times> int) list \<Rightarrow> int" where
  "unhit n h = int (length (filter (\<lambda>kc. snd kc < at_least n) h))"

definition check_up :: "node \<Rightarrow> (pyval \<times> int) list \<Rightarrow> int" where
  "check_up n h =
     (if map_of h (VStr ''FAIL'') = Some 0
      then (case map_of h (VStr ''PASS'') of
              None \<Rightarrow> 0
            | Some npass \<Rightarrow> if npass > at_least n then 0 else weight n)
      else 0)"

definition up :: "node \<Rightarrow> int" where
  "up n =
     (case hits n of
        None \<Rightarrow> 0
      | Some h \<Rightarrow>
          (case kind n of
             Item \<Rightarrow> 0
           | Point \<Rightarrow> weight n * unhit n h
           | Cross \<Rightarrow> weight n * unhit n h
           | Check \<Rightarrow> check_up n h))"

definition down :: "node \<Rightarrow> int" where
  "down n =
     (case kind n of
        Check \<Rightarrow> (case coverage n of Inl e \<Rightarrow> 0 | Inr c \<Rightarrow> c)
      | _ \<Rightarrow> 0)"

definition total :: "(node \<Rightarrow> int) \<Rightarrow> (string \<rightharpoonup> node) \<Rightarrow> string \<Rightarrow> int" where
  "total f db m =
     (\<Sum>x \<in> dom db. if m \<in> set (ancestors x)
                     then (case db x of None \<Rightarrow> 0 | Some n \<Rightarrow> f n) else 0)"

text \<open>
  An object is well formed under its name \<open>m\<close>: a point, a cross and a check have a
  parent, a bin table, a weight that is not negative and a size that covers their
  own bins; a check has the two bins PASS and FAIL, and its \<^verbatim>\<open>at_least\<close> and FAIL count
  are not negative.
\<close>

definition node_ok :: "string \<Rightarrow> node \<Rightarrow> bool" where
  "node_ok m n =
     (case kind n of
        Item \<Rightarrow> True
      | Point \<Rightarrow> has_dot m \<and> 0 \<le> weight n \<and>
                 (\<exists>h. hits n = Some h \<and> weight n * int (length h) \<le> u_size n)
      | Cross \<Rightarrow> has_dot m \<and> 0 \<le> weight n \<and>
                 (\<exists>h. hits n = Some h \<and> weight n * int (length h) \<le> u_size n)
      | Check \<Rightarrow> has_dot m \<and> 0 \<le> weight n \<and> weight n \<le> u_size n \<and> 0 \<le> at_least n \<and>
                 (\<exists>npass nfail. hits n = Some [(VStr ''PASS'', npass), (VStr ''FAIL'', nfail)] \<and>
                                 0 \<le> nfail))"

text \<open>The invariant of the registry.\<close>

definition inv :: "(string \<rightharpoonup> node) \<Rightarrow> bool" where
  "inv db =
     (finite (dom db) \<and> closed db \<and>
      (\<forall>m n. db m = Some n \<longrightarrow>
         node_ok m n \<and> total down db m \<le> u_coverage n \<and>
         u_coverage n + total up db m \<le> u_size n))"

text \<open>
  The registries that a run can reach from the empty registry: constructions that
  return, with weights that are not negative and, for a check, an \<^verbatim>\<open>at_least\<close> that
  is not negative; a plain \<^verbatim>\<open>CoverItem\<close> constructed under a new name; callbacks
  added; sampling events, whether they return or raise.
\<close>

inductive reachable :: "state \<Rightarrow> bool" where
  empty: "reachable empty_state"
| item: "reachable s \<Longrightarrow> nm \<notin> dom (coverage_db s) \<Longrightarrow>
         reachable (fst (CoverItem_init Item nm s))"
| point: "reachable s \<Longrightarrow> 0 \<le> wt \<Longrightarrow>
          CoverPoint nm xf rel bins wt al inj' s = (s', Inr obj) \<Longrightarrow> reachable s'"
| cross: "reachable s \<Longrightarrow> 0 \<le> wt \<Longrightarrow>
          CoverCross nm its ign_bins wt al s = (s', Inr obj) \<Longrightarrow> reachable s'"
| check: "reachable s \<Longrightarrow> 0 \<le> wt \<Longrightarrow> 0 \<le> al \<Longrightarrow>
          CoverCheck nm ff fp wt al s = (s', Inr obj) \<Longrightarrow> reachable s'"
| threshold_callback: "reachable s \<Longrightarrow> reachable (add_threshold_callback nm cb threshold s)"
| bins_callback: "reachable s \<Longrightarrow> reachable (add_bins_callback nm cb bins s)"
| sampled: "reachable s \<Longrightarrow> reachable (fst (sample nm cb_args s))"

text \<open>A point of weight -1, and a check with \<^verbatim>\<open>at_least = -1\<close> sampled with 0.\<close>

definition negative_weight :: state where
  "negative_weight =
     fst (CoverPoint ''top.p'' None None [VInt 1] (- 1) 1 False empty_state)"

definition negative_at_least :: state where
  "negative_at_least =
     fst (sample ''top.check'' [VInt 0]
            (fst (CoverCheck ''top.check'' x_eq_0 (Some x_lt_5) 1 (- 1) empty_state)))"

section \<open>Lemmas\<close>

subsection \<open>Evaluating the examples\<close>

lemma top_check_name: "parent_name ''top.check'' = ''top''" "has_dot ''top.check''" "\<not> has_dot ''top''"
  by (simp_all add: parent_name_def has_dot_def)

lemmas eval_defs = sample_def CoverCheck_call_def check_passed_def check_count_def
  check_bins_callbacks_def check_coverage_def incr_def has_key_def
  update_coverage.simps modify_def new_object_def coverage_at_def size_at_def coverage_def
  detailed_coverage_at_def detailed_coverage_def cover_percentage_at_def cover_percentage_def
  size_p_def py_div_def call_back_def call_bins_callback_def Let_def

lemma check_example_eq: "check_example wt al =
  \<lparr>coverage_db =
        [''top'' \<mapsto> (new_object Item ''top'')\<lparr>u_size := wt, children := [''top.check'']\<rparr>,
         ''top.check'' \<mapsto> (new_object Check ''top.check'')
            \<lparr>u_size := wt, weight := wt, at_least := al, f_pass := Some x_lt_5, f_fail := x_eq_0,
             hits := Some [(VStr ''PASS'', 0), (VStr ''FAIL'', 0)]\<rparr>],
   fired = []\<rparr>"
  by (simp add: check_example_def CoverCheck_def CoverCheck_init_def empty_state_def
      CoverItem_init.simps top_check_name modify_def new_object_def update_size.simps fromkeys_def fun_upd_twist)

lemma no_dot_x: "\<not> has_dot ''x''"
  by (simp add: has_dot_def)

lemma cross_names:
  "parent_name ''top.a'' = ''top''" "has_dot ''top.a''"
  "parent_name ''top.b'' = ''top''" "has_dot ''top.b''"
  "parent_name ''top.cross'' = ''top''" "has_dot ''top.cross''"
  by (simp_all add: parent_name_def has_dot_def)

lemmas init_defs = CoverPoint_def CoverPoint_init_def CoverCross_def CoverCross_init_def
  CoverCheck_def CoverCheck_init_def empty_state_def CoverItem_init.simps modify_def
  new_object_def update_size.simps fromkeys_def Let_def del_key_def has_key_def
  detailed_coverage_def

lemmas call_defs = sample_def CoverPoint_call_def CoverCross_call_def CoverCheck_call_def
  check_passed_def check_count_def check_bins_callbacks_def
  check_coverage_def bins_coverage_def incr_def update_coverage.simps coverage_def
  size_p_def py_div_def call_back_def call_bins_callback_def cover_percentage_def

lemmas at_defs = coverage_at_def size_at_def cover_percentage_at_def detailed_coverage_at_def

lemma top_p_name: "parent_name ''top.p'' = ''top''" "has_dot ''top.p''"
  by (simp_all add: parent_name_def has_dot_def)

lemma point_example_eq: "point_example = point_registry [0, 0, 0, 0] [] 0 []"
  by (simp add: point_example_def point_registry_def init_defs top_p_name top_check_name(3)
      add_threshold_callback_def fun_upd_twist)

lemma sample_point_1:
  "sample ''top.p'' [VInt 1] (point_registry [0, 0, 0, 0] [] 0 [])
     = (point_registry [1, 0, 0, 0] [VInt 1] 1 [], None)"
  by (simp add: point_registry_def call_defs top_p_name top_check_name(3) new_object_def
      dummy_f_def Let_def fun_upd_twist)

lemma sample_point_2:
  "sample ''top.p'' [VInt 2] (point_registry [1, 0, 0, 0] [VInt 1] 1 [])
     = (point_registry [1, 1, 0, 0] [VInt 2] 2
          [ThresholdFired ''top'' 50 7, ThresholdFired ''top.p'' 50 8], None)"
  by (simp add: point_registry_def call_defs top_p_name top_check_name(3) new_object_def
      dummy_f_def Let_def fun_upd_twist)

lemma sample_point_3:
  "sample ''top.p'' [VInt 3] (point_registry [1, 1, 0, 0] [VInt 2] 2 evs)
     = (point_registry [1, 1, 1, 0] [VInt 3] 3 evs, None)"
  by (simp add: point_registry_def call_defs top_p_name top_check_name(3) new_object_def
      dummy_f_def Let_def fun_upd_twist)

lemma top_cross_p_name: "parent_name ''top.cross.p'' = ''top.cross''" "has_dot ''top.cross.p''"
  by (simp_all add: parent_name_def has_dot_def)

lemma wildcard_cross_run:
  "CoverCross ''top.cross'' [''top.a'', ''top.b''] [[VNone, VNone]] 1 1 two_points
     = (wildcard_cross, Inr ''top.cross'')"
  by (simp add: wildcard_cross_def two_points_def init_defs cross_names top_check_name(3))

subsection \<open>Names and paths\<close>

lemma path_length: "m \<in> set (path nm) \<Longrightarrow> length m \<le> length nm"
proof (induction nm arbitrary: m rule: path.induct)
  case (1 nm)
  from "1.prems" have "m = nm \<or> (has_dot nm \<and> m \<in> set (path (parent_name nm)))"
    by (subst (asm) path.simps) (auto split: if_splits)
  then show ?case
  proof
    assume "m = nm" then show ?thesis by simp
  next
    assume h: "has_dot nm \<and> m \<in> set (path (parent_name nm))"
    then have "length m \<le> length (parent_name nm)" using "1.IH" by blast
    with h parent_name_less [of nm] show ?thesis by simp
  qed
qed

lemma parent_name_neq: "has_dot nm \<Longrightarrow> parent_name nm \<noteq> nm"
  using parent_name_less [of nm] by auto

lemma not_in_path_parent: "has_dot nm \<Longrightarrow> nm \<notin> set (path (parent_name nm))"
  using path_length [of nm "parent_name nm"] parent_name_less [of nm] by auto

lemma self_in_path: "nm \<in> set (path nm)"
  by (subst path.simps) simp

lemma path_parent_subset: "has_dot nm \<Longrightarrow> set (path (parent_name nm)) \<subseteq> set (path nm)"
  by (subst (2) path.simps) auto

subsection \<open>Registration\<close>

lemma CoverItem_init_no_dot:
  "\<not> has_dot nm \<Longrightarrow>
   CoverItem_init k nm s = (s\<lparr>coverage_db := (coverage_db s)(nm \<mapsto> new_object k nm)\<rparr>, None)"
  by (simp add: CoverItem_init.simps)

lemma CoverItem_init_props:
  "CoverItem_init k nm s = (s', e) \<Longrightarrow>
     e = None \<and> fired s' = fired s \<and> coverage_db s' nm = Some (new_object k nm) \<and>
     (\<forall>m. m \<noteq> nm \<longrightarrow> init_rel nm m (coverage_db s m) (coverage_db s' m))"
proof (induction k nm s arbitrary: s' e rule: CoverItem_init.induct)
  case (1 k nm s)
  show ?case
  proof (cases "has_dot nm")
    case False
    with "1.prems" have "s' = s\<lparr>coverage_db := (coverage_db s)(nm \<mapsto> new_object k nm)\<rparr>" "e = None"
      by (simp_all add: CoverItem_init.simps)
    then show ?thesis
      by (auto simp: init_rel_def)
  next
    case True
    let ?p = "parent_name nm"
    have pne: "?p \<noteq> nm" using True by (rule parent_name_neq)
    obtain s1 e1 where r1:
      "(if ?p \<notin> dom (coverage_db s) then CoverItem_init Item ?p s else (s, None)) = (s1, e1)"
      by (cases "if ?p \<notin> dom (coverage_db s) then CoverItem_init Item ?p s else (s, None)") auto
    have p1: "e1 = None \<and> fired s1 = fired s \<and> ?p \<in> dom (coverage_db s1) \<and>
              (\<forall>m. init_rel nm m (coverage_db s m) (coverage_db s1 m))"
    proof (cases "?p \<in> dom (coverage_db s)")
      case True
      with r1 have "s1 = s" "e1 = None" by simp_all
      with True show ?thesis
        by (auto simp: init_rel_def)
    next
      case False
      with r1 have c: "CoverItem_init Item ?p s = (s1, e1)" by simp
      from "1.IH" [OF True False c]
      have ih: "e1 = None" "fired s1 = fired s" "coverage_db s1 ?p = Some (new_object Item ?p)"
        "\<And>m. m \<noteq> ?p \<Longrightarrow> init_rel ?p m (coverage_db s m) (coverage_db s1 m)"
        by auto
      have "init_rel nm m (coverage_db s m) (coverage_db s1 m)" for m
      proof (cases "m = ?p")
        case True
        have "?p \<in> set (path nm)"
          using path_parent_subset [OF \<open>has_dot nm\<close>] self_in_path [of ?p] by blast
        with True False ih(3) show ?thesis
          by (auto simp: init_rel_def new_object_def no_children_def)
      next
        case False
        from ih(4) [OF False] path_parent_subset [OF \<open>has_dot nm\<close>] show ?thesis
          by (auto simp: init_rel_def)
      qed
      with ih show ?thesis by auto
    qed
    then obtain parent where par: "coverage_db s1 ?p = Some parent" by auto
    from "1.prems" True r1 p1 par
    have s': "s' = (modify ?p (\<lambda>p. p\<lparr>children := children p @ [nm]\<rparr>) s1)
                    \<lparr>coverage_db := (coverage_db (modify ?p (\<lambda>p. p\<lparr>children := children p @ [nm]\<rparr>) s1))
                       (nm \<mapsto> new_object k nm)\<rparr>"
      and e: "e = None"
      by (simp_all add: CoverItem_init.simps Let_def)
    have "init_rel nm m (coverage_db s m) (coverage_db s' m)" if "m \<noteq> nm" for m
    proof (cases "m = ?p")
      case True
      from p1 have "init_rel nm ?p (coverage_db s ?p) (coverage_db s1 ?p)" by blast
      with True par that show ?thesis
        by (auto simp: s' modify_def init_rel_def no_children_def)
    next
      case False
      from p1 have "init_rel nm m (coverage_db s m) (coverage_db s1 m)" by blast
      with False that show ?thesis
        by (simp add: s' modify_def)
    qed
    with p1 e show ?thesis by (simp add: s' modify_def)
  qed
qed


lemma CoverItem_init_ok: "snd (CoverItem_init k nm s) = None"
  using CoverItem_init_props [of k nm s] by (cases "CoverItem_init k nm s") auto

lemma CoverPoint_NoParent:
  assumes "snd (CoverPoint nm xf rel bins wt al inj' s) = Inl NoParent"
  shows "nm \<notin> dom (coverage_db s) \<and> \<not> has_dot nm"
  using assms CoverItem_init_ok [of Point nm s]
  by (auto simp: CoverPoint_def CoverPoint_init_def Let_def
      split: if_splits prod.splits option.splits)

lemma detailed_coverage_not_NoParent: "detailed_coverage obj \<noteq> Inl NoParent"
  by (cases "children obj")
     (auto simp: detailed_coverage_def split: kind.splits option.splits)

lemma bins_lists_of_not_NoParent: "bins_lists_of its s \<noteq> Inl NoParent"
  by (induction its)
     (auto simp: detailed_coverage_not_NoParent split: option.splits sum.splits)

lemma ignore_match_not_NoParent: "ignore_match ignore_bins x_bins \<noteq> Inl NoParent"
  by (induction ignore_bins x_bins rule: ignore_match.induct) (auto split: sum.splits)

lemma ignore_loop_not_NoParent: "snd (ignore_loop ign_bins x_bins h) \<noteq> Some NoParent"
  by (induction ign_bins x_bins h rule: ignore_loop.induct)
     (auto simp: ignore_match_not_NoParent split: sum.splits)

lemma remove_ignored_not_NoParent: "snd (remove_ignored ign_bins keys h) \<noteq> Some NoParent"
proof (induction ign_bins keys h rule: remove_ignored.induct)
  case (2 ign_bins x_bins rest h)
  then show ?case
    using ignore_loop_not_NoParent [of ign_bins x_bins h]
    by (cases "ignore_loop ign_bins x_bins h") (auto split: option.splits)
qed auto

lemma CoverCross_NoParent:
  assumes "snd (CoverCross nm its ign_bins wt al s) = Inl NoParent"
  shows "nm \<notin> dom (coverage_db s) \<and> \<not> has_dot nm"
proof (rule ccontr)
  assume n: "\<not> (nm \<notin> dom (coverage_db s) \<and> \<not> has_dot nm)"
  obtain s1 where s1: "CoverItem_init Cross nm s = (s1, None)"
    using CoverItem_init_ok [of Cross nm s] by (cases "CoverItem_init Cross nm s") auto
  let ?s2 = "modify nm (\<lambda>self. self\<lparr>weight := wt, at_least := al, items := its\<rparr>) s1"
  show False
  proof (cases "bins_lists_of its ?s2")
    case (Inl e)
    with assms n s1 bins_lists_of_not_NoParent [of its ?s2] show False
      by (auto simp: CoverCross_def CoverCross_init_def Let_def split: if_splits option.splits)
  next
    case (Inr bl)
    let ?h0 = "fromkeys (map VTuple (itertools_product bl)) (0::int)"
    from assms n s1 Inr remove_ignored_not_NoParent [of ign_bins "map fst ?h0" ?h0] show False
      by (cases "remove_ignored ign_bins (map fst ?h0) ?h0")
         (auto simp: CoverCross_def CoverCross_init_def Let_def split: if_splits option.splits)
  qed
qed

lemma CoverCheck_NoParent:
  assumes "snd (CoverCheck nm ff fp wt al s) = Inl NoParent"
  shows "nm \<notin> dom (coverage_db s) \<and> \<not> has_dot nm"
  using assms CoverItem_init_ok [of Check nm s]
  by (auto simp: CoverCheck_def CoverCheck_init_def Let_def
      split: if_splits prod.splits option.splits)

subsection \<open>The propagation of coverage\<close>

lemma threshold_loop_db [simp]:
  "coverage_db (fst (threshold_loop nm self cur cbs s)) = coverage_db s"
  by (induction cbs arbitrary: s) (auto simp: call_back_def split: sum.splits)

lemma threshold_loop_fired:
  "\<exists>evs. fired (fst (threshold_loop nm self cur cbs s)) = fired s @ evs \<and>
         threshold_events [nm] evs"
proof (induction cbs arbitrary: s)
  case Nil
  show ?case by (simp add: threshold_events_def)
next
  case (Cons a cbs)
  obtain ii cb where a: "a = (ii, cb)" by (cases a)
  let ?s' = "call_back (ThresholdFired nm ii cb) s"
  from Cons [of ?s'] obtain evs where
    e: "fired (fst (threshold_loop nm self cur cbs ?s')) = fired ?s' @ evs"
       "threshold_events [nm] evs" by blast
  then have e': "fired (fst (threshold_loop nm self cur cbs ?s'))
                  = fired s @ (ThresholdFired nm ii cb # evs)"
    "threshold_events [nm] (ThresholdFired nm ii cb # evs)"
    by (simp_all add: call_back_def threshold_events_def)
  have n: "fired s = fired s @ []" "threshold_events [nm] []"
    by (simp_all add: threshold_events_def)
  show ?case
    using Cons [of s] e' n unfolding a
    by (auto split: sum.splits)
qed

text \<open>The calls made by the loop when neither quotient raises.\<close>

lemma threshold_loop_exact:
  assumes "size_p self \<noteq> 0" "coverage self = Inr c"
  shows "threshold_loop nm self cur cbs s =
     (s\<lparr>fired := fired s @
          map (\<lambda>(ii, cb). ThresholdFired nm ii cb)
            (filter (\<lambda>(ii, cb). of_int ii > (of_int (100 * cur) / of_int (size_p self) :: rat) \<and>
                                 of_int ii \<le> (of_int (100 * c) / of_int (size_p self) :: rat)) cbs)\<rparr>,
      None)"
proof (induction cbs arbitrary: s)
  case Nil
  show ?case by simp
next
  case (Cons a cbs)
  obtain ii cb where a: "a = (ii, cb)" by (cases a)
  have lo: "py_div (100 * cur) (size_p self) = Inr (of_int (100 * cur) / of_int (size_p self))"
    and hi: "cover_percentage self = Inr (of_int (100 * c) / of_int (size_p self))"
    using assms by (simp_all add: py_div_def cover_percentage_def)
  show ?case
    unfolding a threshold_loop.simps lo hi
    by (simp add: Cons call_back_def)
qed

lemma update_coverage_None:
  "coverage_db s nm = None \<Longrightarrow> update_coverage nm delta s = (s, Some KeyError)"
  by (simp add: update_coverage.simps)

lemma update_coverage_Some:
  "coverage_db s nm = Some self \<Longrightarrow>
   update_coverage nm delta s =
     (case (if has_dot nm
            then update_coverage (parent_name nm) delta
                   (s\<lparr>coverage_db := (coverage_db s)(nm \<mapsto> self\<lparr>u_coverage := u_coverage self + delta\<rparr>)\<rparr>)
            else (s\<lparr>coverage_db := (coverage_db s)(nm \<mapsto> self\<lparr>u_coverage := u_coverage self + delta\<rparr>)\<rparr>, None)) of
        (s2, Some e) \<Rightarrow> (s2, Some e)
      | (s2, None) \<Rightarrow>
          threshold_loop nm (self\<lparr>u_coverage := u_coverage self + delta\<rparr>) (u_coverage self)
            (threshold_callbacks self) s2)"
  by (subst update_coverage.simps) (simp add: Let_def)

lemma update_coverage_exact:
  "set (path nm) \<subseteq> dom (coverage_db s) \<Longrightarrow>
   coverage_db (fst (update_coverage nm delta s)) = add_coverage (path nm) delta (coverage_db s)"
proof (induction nm delta s rule: update_coverage.induct)
  case (1 nm delta s)
  from "1.prems" self_in_path [of nm] obtain self where self: "coverage_db s nm = Some self"
    by auto
  let ?self1 = "self\<lparr>u_coverage := u_coverage self + delta\<rparr>"
  let ?s1 = "s\<lparr>coverage_db := (coverage_db s)(nm \<mapsto> ?self1)\<rparr>"
  show ?case
  proof (cases "has_dot nm")
    case False
    then have "path nm = [nm]" by (subst path.simps) simp
    with False self show ?thesis
      by (auto simp: update_coverage_Some add_coverage_def split: prod.splits option.splits)
  next
    case True
    then have p: "path nm = nm # path (parent_name nm)" by (subst path.simps) simp
    from "1.prems" p have sub: "set (path (parent_name nm)) \<subseteq> dom (coverage_db ?s1)"
      by auto
    have ih: "coverage_db (fst (update_coverage (parent_name nm) delta ?s1))
              = add_coverage (path (parent_name nm)) delta (coverage_db ?s1)"
      using "1.IH" [OF self refl refl refl True sub] .
    have "coverage_db (fst (update_coverage nm delta s))
          = coverage_db (fst (update_coverage (parent_name nm) delta ?s1))"
      using self True
      by (auto simp: update_coverage_Some split: prod.splits option.splits)
    also have "\<dots> = add_coverage (path nm) delta (coverage_db s)"
      using ih not_in_path_parent [OF True] self
      by (auto simp: p add_coverage_def fun_eq_iff)
    finally show ?thesis .
  qed
qed

lemma update_coverage_fired:
  "\<exists>evs. fired (fst (update_coverage nm delta s)) = fired s @ evs \<and>
         threshold_events (path nm) evs"
proof (induction nm delta s rule: update_coverage.induct)
  case (1 nm delta s)
  show ?case
  proof (cases "coverage_db s nm")
    case None
    then show ?thesis by (simp add: update_coverage_None threshold_events_def)
  next
    case (Some self)
    let ?self1 = "self\<lparr>u_coverage := u_coverage self + delta\<rparr>"
    let ?s1 = "s\<lparr>coverage_db := (coverage_db s)(nm \<mapsto> ?self1)\<rparr>"
    let ?r = "if has_dot nm then update_coverage (parent_name nm) delta ?s1 else (?s1, None)"
    have r: "\<exists>evs. fired (fst ?r) = fired s @ evs \<and> threshold_events (path nm) evs"
    proof (cases "has_dot nm")
      case False
      then show ?thesis by (simp add: threshold_events_def)
    next
      case True
      from "1.IH" [OF Some refl refl refl True] obtain evs where
        "fired (fst (update_coverage (parent_name nm) delta ?s1)) = fired ?s1 @ evs"
        "threshold_events (path (parent_name nm)) evs" by blast
      with True path_parent_subset [OF True] show ?thesis
        by (auto simp: threshold_events_def) blast
    qed
    then obtain evs where evs: "fired (fst ?r) = fired s @ evs" "threshold_events (path nm) evs"
      by blast
    obtain s2 e where re: "?r = (s2, e)" by (cases ?r)
    show ?thesis
    proof (cases e)
      case (Some err)
      with re evs \<open>coverage_db s nm = Some self\<close> show ?thesis
        by (auto simp: update_coverage_Some)
    next
      case None
      from threshold_loop_fired [of nm ?self1 "u_coverage self" "threshold_callbacks self" s2]
      obtain evs' where
        "fired (fst (threshold_loop nm ?self1 (u_coverage self) (threshold_callbacks self) s2))
           = fired s2 @ evs'" "threshold_events [nm] evs'" by blast
      with evs re None self_in_path [of nm]
      have "fired (fst (threshold_loop nm ?self1 (u_coverage self) (threshold_callbacks self) s2))
              = fired s @ (evs @ evs')" "threshold_events (path nm) (evs @ evs')"
        by (auto simp: threshold_events_def)
      with re None \<open>coverage_db s nm = Some self\<close> show ?thesis
        by (auto simp: update_coverage_Some simp del: append_assoc)
    qed
  qed
qed

subsection \<open>What sampling leaves alone\<close>

lemma hits_le_refl [simp]: "hits_le a a"
  by (auto simp: hits_le_def list_all2_same split: option.splits)

lemma list_all2_snd_le_trans:
  "list_all2 (\<lambda>x y. snd x \<le> snd y) (a :: ('k \<times> int) list) b \<Longrightarrow>
   list_all2 (\<lambda>x y. snd x \<le> snd y) b (c :: ('k \<times> int) list) \<Longrightarrow>
   list_all2 (\<lambda>x y. snd x \<le> snd y) a c"
  by (rule list_all2_trans [where ?P1.0 = "\<lambda>x y. snd x \<le> snd y"
        and ?P2.0 = "\<lambda>x y. snd x \<le> snd y"]) auto

lemma hits_le_trans: "hits_le a b \<Longrightarrow> hits_le b c \<Longrightarrow> hits_le a c"
  by (cases a; cases b; cases c) (auto simp: hits_le_def intro: list_all2_snd_le_trans)

lemma evolves_refl [simp]: "evolves n n"
  by (simp add: evolves_def)

lemma evolves_trans: "evolves a b \<Longrightarrow> evolves b c \<Longrightarrow> evolves a c"
  by (auto simp: evolves_def intro: hits_le_trans)

lemma db_evolves_refl [simp]: "db_evolves db db"
  by (simp add: db_evolves_def option.rel_refl)

lemma db_evolves_trans: "db_evolves a b \<Longrightarrow> db_evolves b c \<Longrightarrow> db_evolves a c"
  unfolding db_evolves_def
proof
  fix x
  assume a: "\<forall>x. rel_option evolves (a x) (b x)" and b: "\<forall>x. rel_option evolves (b x) (c x)"
  from a b have "rel_option evolves (a x) (b x)" "rel_option evolves (b x) (c x)" by auto
  then show "rel_option evolves (a x) (c x)"
    by (cases "a x"; cases "b x"; cases "c x") (auto intro: evolves_trans)
qed

lemma db_evolves_upd:
  "db m = Some n \<Longrightarrow> evolves n n' \<Longrightarrow> db_evolves db (db(m \<mapsto> n'))"
  by (auto simp: db_evolves_def option.rel_refl)

lemma evolves_u_coverage [simp]: "evolves n (n\<lparr>u_coverage := c\<rparr>)"
  by (simp add: evolves_def static_def)

lemma evolves_new_hits [simp]: "evolves n (n\<lparr>new_hits := c\<rparr>)"
  by (simp add: evolves_def static_def)

lemma update_coverage_evolves:
  "db_evolves (coverage_db s) (coverage_db (fst (update_coverage nm delta s)))"
proof (induction nm delta s rule: update_coverage.induct)
  case (1 nm delta s)
  show ?case
  proof (cases "coverage_db s nm")
    case None
    then show ?thesis by (simp add: update_coverage_None)
  next
    case (Some self)
    let ?self1 = "self\<lparr>u_coverage := u_coverage self + delta\<rparr>"
    let ?s1 = "s\<lparr>coverage_db := (coverage_db s)(nm \<mapsto> ?self1)\<rparr>"
    have e1: "db_evolves (coverage_db s) (coverage_db ?s1)"
      using Some by (simp add: db_evolves_upd)
    show ?thesis
    proof (cases "has_dot nm")
      case False
      with Some show ?thesis
        by (auto simp: update_coverage_Some db_evolves_def option.rel_refl
            split: prod.splits option.splits)
    next
      case True
      from "1.IH" [OF Some refl refl refl True] e1
      have "db_evolves (coverage_db s)
              (coverage_db (fst (update_coverage (parent_name nm) delta ?s1)))"
        by (rule db_evolves_trans [rotated])
      with Some True show ?thesis
        by (auto simp: update_coverage_Some split: prod.splits option.splits)
    qed
  qed
qed

lemma update_coverage_frame:
  "m \<notin> set (path nm) \<Longrightarrow>
   coverage_db (fst (update_coverage nm delta s)) m = coverage_db s m"
proof (induction nm delta s rule: update_coverage.induct)
  case (1 nm delta s)
  from "1.prems" self_in_path [of nm] have ne: "m \<noteq> nm" by auto
  show ?case
  proof (cases "coverage_db s nm")
    case None
    then show ?thesis by (simp add: update_coverage_None)
  next
    case (Some self)
    let ?self1 = "self\<lparr>u_coverage := u_coverage self + delta\<rparr>"
    let ?s1 = "s\<lparr>coverage_db := (coverage_db s)(nm \<mapsto> ?self1)\<rparr>"
    show ?thesis
    proof (cases "has_dot nm")
      case False
      with Some ne show ?thesis
        by (simp add: update_coverage_Some split: prod.splits option.splits)
    next
      case True
      from "1.prems" path_parent_subset [OF True] have "m \<notin> set (path (parent_name nm))"
        by auto
      from "1.IH" [OF Some refl refl refl True this] ne
      have "coverage_db (fst (update_coverage (parent_name nm) delta ?s1)) m = coverage_db s m"
        by simp
      with Some True show ?thesis
        by (auto simp: update_coverage_Some split: prod.splits option.splits)
    qed
  qed
qed

lemma incr_static: "map (\<lambda>kc. (fst kc, 0::int)) (incr h k) = map (\<lambda>kc. (fst kc, 0)) h"
  by (induction h) (auto simp: incr_def)

lemma incr_le: "list_all2 (\<lambda>x y. snd x \<le> snd y) h (incr h k)"
  by (induction h) (auto simp: incr_def)

lemma evolves_hits:
  "hits n = Some h \<Longrightarrow> map (\<lambda>kc. (fst kc, 0::int)) h' = map (\<lambda>kc. (fst kc, 0)) h \<Longrightarrow>
   list_all2 (\<lambda>x y. snd x \<le> snd y) h h' \<Longrightarrow>
   evolves n (n\<lparr>hits := Some h', new_hits := nh\<rparr>) \<and> evolves n (n\<lparr>hits := Some h'\<rparr>)"
  by (simp add: evolves_def static_def hits_le_def)

lemma match_bins_hits:
  "match_bins nm self result h = (h', nh, evs) \<Longrightarrow>
   map (\<lambda>kc. (fst kc, 0::int)) h' = map (\<lambda>kc. (fst kc, 0)) h \<and>
   list_all2 (\<lambda>x y. snd x \<le> snd y) h h'"
proof (induction h arbitrary: h' nh evs)
  case Nil
  then show ?case by simp
next
  case (Cons a h)
  obtain b n where a: "a = (b, n)" by (cases a)
  obtain r1 r2 r3 where r: "match_bins nm self result h = (r1, r2, r3)"
    by (cases "match_bins nm self result h")
  from Cons.IH [OF r] Cons.prems r show ?case
    unfolding a by (auto simp: Let_def list_all2_same split: if_splits)
qed

lemma cross_hit_loop_hits:
  "cross_hit_loop nm self xs h = (h', evs) \<Longrightarrow>
   map (\<lambda>kc. (fst kc, 0::int)) h' = map (\<lambda>kc. (fst kc, 0)) h \<and>
   list_all2 (\<lambda>x y. snd x \<le> snd y) h h'"
proof (induction xs arbitrary: h h' evs)
  case Nil
  then show ?case by (simp add: list_all2_same)
next
  case (Cons x xs)
  show ?case
  proof (cases "has_key h x")
    case False
    with Cons show ?thesis by simp
  next
    case True
    obtain r1 r2 where r: "cross_hit_loop nm self xs (incr h x) = (r1, r2)"
      by (cases "cross_hit_loop nm self xs (incr h x)")
    with True Cons.prems have "h' = r1" by (simp add: Let_def)
    with Cons.IH [OF r] incr_static [of h x] incr_le [of h x] show ?thesis
      by (auto intro: list_all2_snd_le_trans)
  qed
qed

lemma modify_evolves:
  "(\<And>n. evolves n (f n)) \<Longrightarrow> db_evolves (coverage_db s) (coverage_db (modify nm f s))"
  by (cases "coverage_db s nm") (auto simp: modify_def db_evolves_def option.rel_refl)

lemma CoverPoint_call_evolves:
  "db_evolves (coverage_db s) (coverage_db (fst (CoverPoint_call nm cb_args s)))"
proof (cases "coverage_db s nm")
  case None
  then show ?thesis by (simp add: CoverPoint_call_def)
next
  case (Some self)
  show ?thesis
  proof (cases "hits self")
    case None
    with Some show ?thesis by (simp add: CoverPoint_call_def)
  next
    case (Some h)
    note self = \<open>coverage_db s nm = Some self\<close>
    show ?thesis
    proof (cases "case transformation self of None \<Rightarrow> dummy_f cb_args
                    | Some xf \<Rightarrow> Inr (xf cb_args)")
      case (Inl e)
      with self Some modify_evolves [of "\<lambda>self. self\<lparr>new_hits := []\<rparr>" s nm] show ?thesis
        by (simp add: CoverPoint_call_def)
    next
      case (Inr result)
      obtain h' nh evs where m: "match_bins nm self result h = (h', nh, evs)"
        by (cases "match_bins nm self result h")
      let ?self' = "self\<lparr>hits := Some h', new_hits := nh\<rparr>"
      let ?s2 = "s\<lparr>coverage_db := (coverage_db s)(nm \<mapsto> ?self'), fired := fired s @ evs\<rparr>"
      from match_bins_hits [OF m] evolves_hits [OF Some]
      have "evolves self ?self'" by blast
      with self have e2: "db_evolves (coverage_db s) (coverage_db ?s2)"
        by (simp add: db_evolves_upd)
      let ?d = "bins_coverage ?self' h' - bins_coverage self h"
      have e3: "db_evolves (coverage_db s)
                 (coverage_db (fst (update_coverage (parent_name nm) ?d ?s2)))"
        using e2 update_coverage_evolves by (rule db_evolves_trans)
      have "coverage_db (fst (CoverPoint_call nm cb_args s)) = coverage_db ?s2 \<or>
            coverage_db (fst (CoverPoint_call nm cb_args s))
              = coverage_db (fst (update_coverage (parent_name nm) ?d ?s2))"
        using self Some Inr m
        by (cases "update_coverage (parent_name nm) ?d ?s2")
           (auto simp: CoverPoint_call_def Let_def split: option.splits)
      with e2 e3 show ?thesis by auto
    qed
  qed
qed

lemma CoverCross_call_evolves:
  "db_evolves (coverage_db s) (coverage_db (fst (CoverCross_call nm s)))"
proof (cases "coverage_db s nm")
  case None
  then show ?thesis by (simp add: CoverCross_call_def)
next
  case (Some self)
  show ?thesis
  proof (cases "hits self")
    case None
    with Some show ?thesis by (simp add: CoverCross_call_def)
  next
    case (Some h)
    note self = \<open>coverage_db s nm = Some self\<close>
    show ?thesis
    proof (cases "hit_lists_of (items self) s")
      case (Inl e)
      with self Some show ?thesis by (simp add: CoverCross_call_def)
    next
      case (Inr hit_lists)
      obtain h' evs where m:
        "cross_hit_loop nm self (map VTuple (itertools_product hit_lists)) h = (h', evs)"
        by (cases "cross_hit_loop nm self (map VTuple (itertools_product hit_lists)) h")
      let ?self' = "self\<lparr>hits := Some h'\<rparr>"
      let ?s2 = "s\<lparr>coverage_db := (coverage_db s)(nm \<mapsto> ?self'), fired := fired s @ evs\<rparr>"
      from cross_hit_loop_hits [OF m] evolves_hits [OF Some]
      have "evolves self ?self'" by blast
      with self have e2: "db_evolves (coverage_db s) (coverage_db ?s2)"
        by (simp add: db_evolves_upd)
      let ?d = "bins_coverage ?self' h' - bins_coverage self h"
      have e3: "db_evolves (coverage_db s)
                 (coverage_db (fst (update_coverage (parent_name nm) ?d ?s2)))"
        using e2 update_coverage_evolves by (rule db_evolves_trans)
      have "coverage_db (fst (CoverCross_call nm s)) = coverage_db ?s2 \<or>
            coverage_db (fst (CoverCross_call nm s))
              = coverage_db (fst (update_coverage (parent_name nm) ?d ?s2))"
        using self Some Inr m
        by (cases "update_coverage (parent_name nm) ?d ?s2")
           (auto simp: CoverCross_call_def Let_def split: option.splits)
      with e2 e3 show ?thesis by auto
    qed
  qed
qed


lemma call_bins_callback_db [simp]:
  "coverage_db (call_bins_callback nm self b s) = coverage_db s"
  by (simp add: call_bins_callback_def call_back_def split: option.splits)

lemma check_bins_callbacks_db [simp]:
  "coverage_db (check_bins_callbacks nm self passed s) = coverage_db s"
  by (simp add: check_bins_callbacks_def)

lemma check_count_hits:
  "map (\<lambda>kc. (fst kc, 0::int)) (check_count passed h) = map (\<lambda>kc. (fst kc, 0)) h \<and>
   list_all2 (\<lambda>x y. snd x \<le> snd y) h (check_count passed h)"
  by (simp add: check_count_def incr_static incr_le)

lemma CoverCheck_call_evolves:
  "db_evolves (coverage_db s) (coverage_db (fst (CoverCheck_call nm cb_args s)))"
proof (cases "coverage_db s nm")
  case None
  then show ?thesis by (simp add: CoverCheck_call_def)
next
  case (Some self)
  show ?thesis
  proof (cases "hits self")
    case None
    with Some show ?thesis by (simp add: CoverCheck_call_def)
  next
    case (Some h)
    note self = \<open>coverage_db s nm = Some self\<close>
    show ?thesis
    proof (cases "check_coverage self h")
      case (Inl e)
      with self Some show ?thesis by (simp add: CoverCheck_call_def)
    next
      case (Inr current_coverage)
      let ?passed = "check_passed self cb_args"
      let ?h' = "check_count ?passed h"
      let ?self' = "self\<lparr>hits := Some ?h'\<rparr>"
      let ?s1 = "s\<lparr>coverage_db := (coverage_db s)(nm \<mapsto> ?self')\<rparr>"
      from check_count_hits [of ?passed h] evolves_hits [OF Some]
      have "evolves self ?self'" by blast
      with self have e1: "db_evolves (coverage_db s) (coverage_db ?s1)"
        by (simp add: db_evolves_upd)
      have e2: "db_evolves (coverage_db s)
                 (coverage_db (fst (update_coverage (parent_name nm) d ?s1)))" for d
        using e1 update_coverage_evolves by (rule db_evolves_trans)
      have "coverage_db (fst (CoverCheck_call nm cb_args s)) = coverage_db ?s1 \<or>
            (\<exists>d. coverage_db (fst (CoverCheck_call nm cb_args s))
              = coverage_db (fst (update_coverage (parent_name nm) d ?s1)))"
      proof (cases "check_coverage ?self' ?h'")
        case (Inl e)
        with self Some Inr show ?thesis
          by (simp add: CoverCheck_call_def Let_def)
      next
        case (Inr cov)
        let ?u = "update_coverage (parent_name nm) (cov - current_coverage) ?s1"
        let ?t = "threshold_loop nm ?self' current_coverage (threshold_callbacks self) (fst ?u)"
        have c: "fst (CoverCheck_call nm cb_args s) = ?s1 \<or>
                 fst (CoverCheck_call nm cb_args s) = fst ?u \<or>
                 fst (CoverCheck_call nm cb_args s) = fst ?t \<or>
                 fst (CoverCheck_call nm cb_args s)
                   = check_bins_callbacks nm ?self' ?passed (fst ?t)"
          using self Some \<open>check_coverage self h = Inr current_coverage\<close> Inr
          by (simp add: CoverCheck_call_def Let_def split: prod.splits option.splits)
        have "coverage_db (fst ?t) = coverage_db (fst ?u)" by simp
        with c show ?thesis by (metis check_bins_callbacks_db)
      qed
      with e1 e2 show ?thesis by auto
    qed
  qed
qed

lemma sample_evolves:
  "db_evolves (coverage_db s) (coverage_db (fst (sample nm cb_args s)))"
  by (auto simp: sample_def CoverPoint_call_evolves CoverCross_call_evolves
      CoverCheck_call_evolves split: option.splits kind.splits)

lemma samples_evolves:
  "db_evolves (coverage_db s) (coverage_db (samples evs s))"
proof (induction evs arbitrary: s)
  case Nil
  show ?case by simp
next
  case (Cons ev evs)
  obtain nm cb_args where ev: "ev = (nm, cb_args)" by (cases ev)
  from sample_evolves [of s nm cb_args] Cons [of "fst (sample nm cb_args s)"]
  show ?case unfolding ev by (auto intro: db_evolves_trans)
qed

lemma samples_append: "samples (xs @ ys) s = samples ys (samples xs s)"
  by (induction xs arbitrary: s) auto

lemma evolves_fields:
  assumes "evolves n n'"
  shows "kind n' = kind n" "u_size n' = u_size n" "weight n' = weight n"
    "at_least n' = at_least n"
    "map_option (map fst) (hits n') = map_option (map fst) (hits n)"
    "hits_le (hits n) (hits n')"
proof -
  from assms have s: "static n' = static n" and "hits_le (hits n) (hits n')"
    by (simp_all add: evolves_def)
  then show "hits_le (hits n) (hits n')" by simp
  from arg_cong [OF s, of kind] show "kind n' = kind n" by (simp add: static_def)
  from arg_cong [OF s, of u_size] show "u_size n' = u_size n" by (simp add: static_def)
  from arg_cong [OF s, of weight] show "weight n' = weight n" by (simp add: static_def)
  from arg_cong [OF s, of at_least] show "at_least n' = at_least n" by (simp add: static_def)
  from arg_cong [OF s, of hits]
  have "map_option (map (\<lambda>kc. (fst kc, 0::int))) (hits n')
        = map_option (map (\<lambda>kc. (fst kc, 0))) (hits n)"
    by (simp add: static_def)
  then have "map_option (map fst) (map_option (map (\<lambda>kc. (fst kc, 0::int))) (hits n'))
        = map_option (map fst) (map_option (map (\<lambda>kc. (fst kc, 0::int))) (hits n))"
    by simp
  then show "map_option (map fst) (hits n') = map_option (map fst) (hits n)"
    by (simp add: option.map_comp comp_def)
qed

lemma evolves_check:
  assumes "evolves n n'" "hits n = Some [(VStr ''PASS'', p), (VStr ''FAIL'', f)]"
  shows "\<exists>p' f'. hits n' = Some [(VStr ''PASS'', p'), (VStr ''FAIL'', f')] \<and> p \<le> p' \<and> f \<le> f'"
proof -
  from evolves_fields(5) [OF assms(1)] assms(2)
  obtain h' where h': "hits n' = Some h'" "map fst h' = [VStr ''PASS'', VStr ''FAIL'']"
    by (cases "hits n'") auto
  then obtain p' f' where "h' = [(VStr ''PASS'', p'), (VStr ''FAIL'', f')]"
    by (auto simp: map_eq_Cons_conv)
  with evolves_fields(6) [OF assms(1)] assms(2) h' show ?thesis
    by (auto simp: hits_le_def)
qed


lemma check_example_registry: "check_example wt al = check_registry wt al 0 0 0"
  by (simp add: check_example_eq check_registry_def new_object_def)

lemma sample_check_fail:
  "sample ''top.check'' [VInt 0] (check_registry wt al npass nfail cov) =
     (check_registry wt al npass (nfail + 1)
        (cov + (check_registry_coverage wt al npass (nfail + 1)
                 - check_registry_coverage wt al npass nfail)), None)"
  by (auto simp: check_registry_def check_registry_coverage_def eval_defs top_check_name
      x_eq_0_def x_lt_5_def fun_upd_twist)

lemma sample_check_pass:
  "x \<noteq> 0 \<Longrightarrow> x < 5 \<Longrightarrow>
   sample ''top.check'' [VInt x] (check_registry wt al npass nfail cov) =
     (check_registry wt al (npass + 1) nfail
        (cov + (check_registry_coverage wt al (npass + 1) nfail
                 - check_registry_coverage wt al npass nfail)), None)"
  by (auto simp: check_registry_def check_registry_coverage_def eval_defs top_check_name
      x_eq_0_def x_lt_5_def fun_upd_twist)

lemma sample_check_indeterminate:
  "x \<noteq> 0 \<Longrightarrow> \<not> x < 5 \<Longrightarrow>
   sample ''top.check'' [VInt x] (check_registry wt al npass nfail cov) =
     (check_registry wt al npass (nfail + 1) cov, None)"
  by (auto simp: check_registry_def check_registry_coverage_def eval_defs top_check_name
      x_eq_0_def x_lt_5_def fun_upd_twist)

subsection \<open>The calls of threshold callbacks\<close>

lemma not_threshold_of_Nil [simp]: "not_threshold_of nm []"
  by (simp add: not_threshold_of_def)

lemma not_threshold_of_append [simp]:
  "not_threshold_of nm (xs @ ys) = (not_threshold_of nm xs \<and> not_threshold_of nm ys)"
  by (auto simp: not_threshold_of_def)

lemma threshold_events_not_of:
  "threshold_events nms evs \<Longrightarrow> nm \<notin> set nms \<Longrightarrow> not_threshold_of nm evs"
  by (auto simp: threshold_events_def not_threshold_of_def)

lemma count_not_threshold:
  "not_threshold_of nm evs \<Longrightarrow> count_list evs (ThresholdFired nm k v) = 0"
  by (auto simp: not_threshold_of_def count_list_0_iff)

lemma count_threshold_calls_absent:
  "k \<notin> fst ` set cbs \<Longrightarrow>
   count_list (threshold_calls nm sz c0 c1 cbs) (ThresholdFired nm k v) = 0"
  by (force simp: threshold_calls_def count_list_0_iff)

lemma threshold_calls_Cons:
  "threshold_calls nm sz c0 c1 ((ii, cb) # cbs) =
     (if of_int ii > (of_int (100 * c0) / of_int sz :: rat) \<and>
         of_int ii \<le> (of_int (100 * c1) / of_int sz :: rat)
      then ThresholdFired nm ii cb # threshold_calls nm sz c0 c1 cbs
      else threshold_calls nm sz c0 c1 cbs)"
  by (simp add: threshold_calls_def)

lemma count_threshold_calls:
  "distinct (map fst cbs) \<Longrightarrow> map_of cbs k = Some v \<Longrightarrow>
   count_list (threshold_calls nm sz c0 c1 cbs) (ThresholdFired nm k v) =
     (if of_int k > (of_int (100 * c0) / of_int sz :: rat) \<and>
         of_int k \<le> (of_int (100 * c1) / of_int sz :: rat) then 1 else 0)"
proof (induction cbs)
  case Nil
  then show ?case by simp
next
  case (Cons a cbs)
  obtain ii cb where a: "a = (ii, cb)" by (cases a)
  show ?case
  proof (cases "ii = k")
    case True
    with Cons.prems a have "cb = v" "k \<notin> fst ` set cbs" by auto
    with True a count_threshold_calls_absent [of k cbs nm sz c0 c1 v] show ?thesis
      by (simp add: threshold_calls_Cons)
  next
    case False
    with Cons a show ?thesis by (simp add: threshold_calls_Cons)
  qed
qed

lemma threshold_loop_calls:
  assumes "size_p self \<noteq> 0" "coverage self = Inr c"
  shows "threshold_loop nm self cur cbs s =
     (s\<lparr>fired := fired s @ threshold_calls nm (size_p self) cur c cbs\<rparr>, None)"
  using threshold_loop_exact [OF assms] by (simp add: threshold_calls_def)

lemma update_coverage_parent:
  assumes "has_dot nm"
  shows "coverage_db (fst (update_coverage (parent_name nm) d s)) nm = coverage_db s nm"
    and "\<exists>evs. fired (fst (update_coverage (parent_name nm) d s)) = fired s @ evs \<and>
               not_threshold_of nm evs"
proof -
  from not_in_path_parent [OF assms]
  show "coverage_db (fst (update_coverage (parent_name nm) d s)) nm = coverage_db s nm"
    by (rule update_coverage_frame)
  from update_coverage_fired [of "parent_name nm" d s] not_in_path_parent [OF assms]
  show "\<exists>evs. fired (fst (update_coverage (parent_name nm) d s)) = fired s @ evs \<and>
               not_threshold_of nm evs"
    by (blast intro: threshold_events_not_of)
qed

lemma update_coverage_own:
  assumes self: "coverage_db s nm = Some self"
    and run: "update_coverage nm d s = (s', None)"
    and sz: "size_p self \<noteq> 0"
    and c1: "coverage (self\<lparr>u_coverage := u_coverage self + d\<rparr>) = Inr c1"
  shows "coverage_db s' nm = Some (self\<lparr>u_coverage := u_coverage self + d\<rparr>) \<and>
         (\<exists>evs. fired s' = fired s @ evs @
                  threshold_calls nm (size_p self) (u_coverage self) c1 (threshold_callbacks self) \<and>
                not_threshold_of nm evs)"
proof -
  let ?self1 = "self\<lparr>u_coverage := u_coverage self + d\<rparr>"
  let ?s1 = "s\<lparr>coverage_db := (coverage_db s)(nm \<mapsto> ?self1)\<rparr>"
  let ?r = "if has_dot nm then update_coverage (parent_name nm) d ?s1 else (?s1, None)"
  obtain sa ea where r: "?r = (sa, ea)" by (cases ?r)
  have sa: "coverage_db sa nm = Some ?self1 \<and>
            (\<exists>evs. fired sa = fired s @ evs \<and> not_threshold_of nm evs)"
  proof (cases "has_dot nm")
    case True
    with r have "sa = fst (update_coverage (parent_name nm) d ?s1)" by simp
    with update_coverage_parent [OF True, of d ?s1] show ?thesis by simp
  next
    case False
    with r have "sa = ?s1" by simp
    then show ?thesis by simp
  qed
  from run self r have ea: "ea = None"
    by (cases ea) (simp_all add: update_coverage_Some)
  have sz1: "size_p ?self1 \<noteq> 0" using sz by (simp add: size_p_def)
  from run self r ea
  have "threshold_loop nm ?self1 (u_coverage self) (threshold_callbacks self) sa = (s', None)"
    by (simp add: update_coverage_Some)
  with threshold_loop_calls [OF sz1 c1, of nm "u_coverage self" "threshold_callbacks self" sa]
  have s': "s' = sa\<lparr>fired := fired sa @
      threshold_calls nm (size_p self) (u_coverage self) c1 (threshold_callbacks self)\<rparr>"
    by (simp add: size_p_def)
  from sa show ?thesis unfolding s' by auto
qed

lemma match_bins_events:
  "match_bins nm self result h = (h', nh, evs) \<Longrightarrow> not_threshold_of nm' evs"
proof (induction h arbitrary: h' nh evs)
  case Nil
  then show ?case by simp
next
  case (Cons a h)
  obtain b n where a: "a = (b, n)" by (cases a)
  obtain r1 r2 r3 where r: "match_bins nm self result h = (r1, r2, r3)"
    by (cases "match_bins nm self result h")
  from Cons.IH [OF r] Cons.prems r show ?case
    unfolding a
    by (fastforce simp: Let_def not_threshold_of_def split: if_splits option.splits)
qed

lemma cross_hit_loop_events:
  "cross_hit_loop nm self xs h = (h', evs) \<Longrightarrow> not_threshold_of nm' evs"
proof (induction xs arbitrary: h h' evs)
  case Nil
  then show ?case by simp
next
  case (Cons x xs)
  show ?case
  proof (cases "has_key h x")
    case False
    with Cons show ?thesis by simp
  next
    case True
    obtain r1 r2 where r: "cross_hit_loop nm self xs (incr h x) = (r1, r2)"
      by (cases "cross_hit_loop nm self xs (incr h x)")
    from Cons.IH [OF r] True Cons.prems r show ?thesis
      by (fastforce simp: Let_def not_threshold_of_def split: option.splits)
  qed
qed

text \<open>The common end of the sampling of a point and of a cross (lines 381 to 387).\<close>

lemma report_own:
  assumes run: "(case update_coverage (parent_name nm) d s2 of
                   (s3, Some e) \<Rightarrow> (s3, Some e)
                 | (s3, None) \<Rightarrow> threshold_loop nm self' c0 cbs s3) = (s', None)"
    and dot: "has_dot nm"
    and sz: "size_p self' \<noteq> 0" and c1: "coverage self' = Inr c1"
  shows "coverage_db s' nm = coverage_db s2 nm \<and>
         (\<exists>evs. fired s' = fired s2 @ evs @ threshold_calls nm (size_p self') c0 c1 cbs \<and>
                not_threshold_of nm evs)"
proof -
  obtain s3 e3 where u: "update_coverage (parent_name nm) d s2 = (s3, e3)"
    by (cases "update_coverage (parent_name nm) d s2")
  with run have e3: "e3 = None" by (cases e3) simp_all
  from update_coverage_parent [OF dot, of d s2] u
  have s3: "coverage_db s3 nm = coverage_db s2 nm"
    "\<exists>evs. fired s3 = fired s2 @ evs \<and> not_threshold_of nm evs" by simp_all
  from run u e3 have "threshold_loop nm self' c0 cbs s3 = (s', None)" by simp
  with threshold_loop_calls [OF sz c1, of nm c0 cbs s3]
  have s': "s' = s3\<lparr>fired := fired s3 @ threshold_calls nm (size_p self') c0 c1 cbs\<rparr>"
    by simp
  from s3 show ?thesis unfolding s' by auto
qed

lemma CoverPoint_call_own:
  assumes self: "coverage_db s nm = Some self" and k: "kind self = Point"
    and run: "CoverPoint_call nm cb_args s = (s', None)" and sz: "size_p self \<noteq> 0"
  shows "\<exists>self' c0 c1 evs.
           coverage self = Inr c0 \<and> coverage_db s' nm = Some self' \<and> coverage self' = Inr c1 \<and>
           size_p self' = size_p self \<and> threshold_callbacks self' = threshold_callbacks self \<and>
           fired s' = fired s @ evs @
             threshold_calls nm (size_p self) c0 c1 (threshold_callbacks self) \<and>
           not_threshold_of nm evs"
proof -
  from run self obtain h where h: "hits self = Some h"
    by (cases "hits self") (auto simp: CoverPoint_call_def)
  from run self h obtain result where
    res: "(case transformation self of None \<Rightarrow> dummy_f cb_args | Some xf \<Rightarrow> Inr (xf cb_args))
          = Inr result"
    by (cases "case transformation self of None \<Rightarrow> dummy_f cb_args
                 | Some xf \<Rightarrow> Inr (xf cb_args)")
       (auto simp: CoverPoint_call_def Let_def)
  obtain h' nh bevs where m: "match_bins nm self result h = (h', nh, bevs)"
    by (cases "match_bins nm self result h")
  let ?self' = "self\<lparr>hits := Some h', new_hits := nh\<rparr>"
  let ?s2 = "s\<lparr>coverage_db := (coverage_db s)(nm \<mapsto> ?self'), fired := fired s @ bevs\<rparr>"
  from run self h res m have dot: "has_dot nm"
    by (auto simp: CoverPoint_call_def Let_def split: if_splits)
  from run self h res m dot
  have r: "(case update_coverage (parent_name nm)
                  (bins_coverage ?self' h' - bins_coverage self h) ?s2 of
              (s3, Some e) \<Rightarrow> (s3, Some e)
            | (s3, None) \<Rightarrow> threshold_loop nm ?self' (bins_coverage self h)
                               (threshold_callbacks self) s3) = (s', None)"
    by (simp add: CoverPoint_call_def Let_def)
  have sz': "size_p ?self' \<noteq> 0" using sz by (simp add: size_p_def)
  have c1: "coverage ?self' = Inr (bins_coverage ?self' h')"
    using k by (simp add: coverage_def)
  from report_own [OF r dot sz' c1] obtain evs where
    e: "coverage_db s' nm = Some ?self'"
       "fired s' = fired s @ (bevs @ evs) @
          threshold_calls nm (size_p self) (bins_coverage self h) (bins_coverage ?self' h')
            (threshold_callbacks self)"
       "not_threshold_of nm evs"
    by (auto simp: size_p_def)
  from match_bins_events [OF m] e(3) have "not_threshold_of nm (bevs @ evs)" by simp
  moreover have "coverage self = Inr (bins_coverage self h)"
    using k h by (simp add: coverage_def)
  ultimately show ?thesis using e(1,2) c1
    by (intro exI [of _ ?self'] exI [of _ "bins_coverage self h"]
        exI [of _ "bins_coverage ?self' h'"] exI [of _ "bevs @ evs"])
       (simp add: size_p_def)
qed

lemma CoverCross_call_own:
  assumes self: "coverage_db s nm = Some self" and k: "kind self = Cross"
    and run: "CoverCross_call nm s = (s', None)" and sz: "size_p self \<noteq> 0"
  shows "\<exists>self' c0 c1 evs.
           coverage self = Inr c0 \<and> coverage_db s' nm = Some self' \<and> coverage self' = Inr c1 \<and>
           size_p self' = size_p self \<and> threshold_callbacks self' = threshold_callbacks self \<and>
           fired s' = fired s @ evs @
             threshold_calls nm (size_p self) c0 c1 (threshold_callbacks self) \<and>
           not_threshold_of nm evs"
proof -
  from run self obtain h where h: "hits self = Some h"
    by (cases "hits self") (auto simp: CoverCross_call_def)
  from run self h obtain hit_lists where
    res: "hit_lists_of (items self) s = Inr hit_lists"
    by (cases "hit_lists_of (items self) s") (auto simp: CoverCross_call_def Let_def)
  obtain h' bevs where
    m: "cross_hit_loop nm self (map VTuple (itertools_product hit_lists)) h = (h', bevs)"
    by (cases "cross_hit_loop nm self (map VTuple (itertools_product hit_lists)) h")
  let ?self' = "self\<lparr>hits := Some h'\<rparr>"
  let ?s2 = "s\<lparr>coverage_db := (coverage_db s)(nm \<mapsto> ?self'), fired := fired s @ bevs\<rparr>"
  from run self h res m have dot: "has_dot nm"
    by (auto simp: CoverCross_call_def Let_def split: if_splits)
  from run self h res m dot
  have r: "(case update_coverage (parent_name nm)
                  (bins_coverage ?self' h' - bins_coverage self h) ?s2 of
              (s3, Some e) \<Rightarrow> (s3, Some e)
            | (s3, None) \<Rightarrow> threshold_loop nm ?self' (bins_coverage self h)
                               (threshold_callbacks self) s3) = (s', None)"
    by (simp add: CoverCross_call_def Let_def)
  have sz': "size_p ?self' \<noteq> 0" using sz by (simp add: size_p_def)
  have c1: "coverage ?self' = Inr (bins_coverage ?self' h')"
    using k by (simp add: coverage_def)
  from report_own [OF r dot sz' c1] obtain evs where
    e: "coverage_db s' nm = Some ?self'"
       "fired s' = fired s @ (bevs @ evs) @
          threshold_calls nm (size_p self) (bins_coverage self h) (bins_coverage ?self' h')
            (threshold_callbacks self)"
       "not_threshold_of nm evs"
    by (auto simp: size_p_def)
  from cross_hit_loop_events [OF m] e(3) have "not_threshold_of nm (bevs @ evs)" by simp
  moreover have "coverage self = Inr (bins_coverage self h)"
    using k h by (simp add: coverage_def)
  ultimately show ?thesis using e(1,2) c1
    by (intro exI [of _ ?self'] exI [of _ "bins_coverage self h"]
        exI [of _ "bins_coverage ?self' h'"] exI [of _ "bevs @ evs"])
       (simp add: size_p_def)
qed

lemma check_coverage_values:
  "check_coverage self h = Inr c \<Longrightarrow> c = 0 \<or> c = weight self"
  by (auto simp: check_coverage_def split: option.splits if_splits)

lemma fold_bins_coverage:
  "fold (\<lambda>(ii, n) coverage. if n < al then coverage - wt else coverage) h acc
     = acc - wt * int (length (filter (\<lambda>kc. snd kc < al) h))"
  by (induction h arbitrary: acc) (auto simp: algebra_simps)

lemma bins_coverage_eq:
  "bins_coverage self h
     = u_size self - weight self * int (length (filter (\<lambda>kc. snd kc < at_least self) h))"
  by (simp add: bins_coverage_def fold_bins_coverage)

lemma db_evolvesD:
  "db_evolves db db' \<Longrightarrow> db x = Some n \<Longrightarrow> \<exists>n'. db' x = Some n' \<and> evolves n n'"
  unfolding db_evolves_def
  by (erule allE [of _ x]) (simp add: option_rel_Some1)

lemma delta_shape:
  assumes app: "delta_applied nm s s'"
    and c0: "coverage_at s nm = Inr c0" and c1: "coverage_at s' nm = Inr c1"
    and ne: "c0 \<noteq> c1" "c0 \<noteq> 0" "c1 \<noteq> 0"
    and sz: "size_at s nm = Inr sz" "sz \<noteq> 0"
  shows "\<exists>self self' evs.
           coverage_db s nm = Some self \<and> coverage_db s' nm = Some self' \<and>
           size_p self' = sz \<and> threshold_callbacks self' = threshold_callbacks self \<and>
           fired s' = fired s @ evs @ threshold_calls nm sz c0 c1 (threshold_callbacks self) \<and>
           not_threshold_of nm evs"
proof -
  from c0 obtain self where self: "coverage_db s nm = Some self" and cs: "coverage self = Inr c0"
    by (auto simp: coverage_at_def split: option.splits)
  from sz self have szp: "size_p self = sz" "size_p self \<noteq> 0"
    by (auto simp: size_at_def)
  from app show ?thesis unfolding delta_applied_def
  proof
    assume "\<exists>delta. update_coverage nm delta s = (s', None)"
    then obtain d where run: "update_coverage nm d s = (s', None)" ..
    let ?self1 = "self\<lparr>u_coverage := u_coverage self + d\<rparr>"
    show ?thesis
    proof (cases "kind self = Item")
      case True
      then have c: "coverage ?self1 = Inr (u_coverage self + d)" by (simp add: coverage_def)
      from update_coverage_own [OF self run szp(2) c] c1 True cs szp(1) show ?thesis
        using self by (auto simp: coverage_at_def coverage_def size_p_def)
    next
      case False
      then have c: "coverage ?self1 = Inr c0"
        using cs by (cases "kind self") (auto simp: coverage_def bins_coverage_eq
            check_coverage_def split: option.splits)
      from update_coverage_own [OF self run szp(2) c] c1 ne(1) show ?thesis
        by (auto simp: coverage_at_def c)
    qed
  next
    assume "\<exists>cb_args. sample nm cb_args s = (s', None)"
    then obtain cb_args where run: "sample nm cb_args s = (s', None)" ..
    show ?thesis
    proof (cases "kind self")
      case Item
      with run self show ?thesis by (simp add: sample_def)
    next
      case Point
      with run self have "CoverPoint_call nm cb_args s = (s', None)" by (simp add: sample_def)
      from CoverPoint_call_own [OF self Point this szp(2)] cs c1 szp(1) self show ?thesis
        by (auto simp: coverage_at_def)
    next
      case Cross
      with run self have "CoverCross_call nm s = (s', None)" by (simp add: sample_def)
      from CoverCross_call_own [OF self Cross this szp(2)] cs c1 szp(1) self show ?thesis
        by (auto simp: coverage_at_def)
    next
      case Check
      from sample_evolves [of s nm cb_args] run
      have "db_evolves (coverage_db s) (coverage_db s')" by simp
      from db_evolvesD [OF this self]
      obtain self' where self': "coverage_db s' nm = Some self'" "evolves self self'"
        by blast
      from evolves_fields [OF self'(2)] Check
      have k: "kind self' = Check" "weight self' = weight self" by simp_all
      from cs Check ne(2) have "c0 = weight self"
        by (auto simp: coverage_def split: option.splits dest: check_coverage_values)
      moreover from c1 self' k ne(3) have "c1 = weight self"
        by (auto simp: coverage_at_def coverage_def split: option.splits
            dest: check_coverage_values)
      ultimately show ?thesis using ne(1) by simp
    qed
  qed
qed

lemma point_registry_reads:
  "size_at (point_registry counts nh cov evs) ''top.p'' = Inr 4"
  "size_at (point_registry counts nh cov evs) ''top'' = Inr 4"
  "coverage_at (point_registry counts nh cov evs) ''top'' = Inr cov"
  "coverage_at (point_registry [a, b, c, d] nh cov evs) ''top.p''
     = Inr (4 - int (length (filter (\<lambda>n. n < 1) [a, b, c, d])))"
  "fired (point_registry counts nh cov evs) = evs"
  "map_option threshold_callbacks (coverage_db (point_registry counts nh cov evs) ''top.p'')
     = Some [(50, 8)]"
  "map_option threshold_callbacks (coverage_db (point_registry counts nh cov evs) ''top'')
     = Some [(50, 7)]"
  by (simp_all add: point_registry_def at_defs size_p_def coverage_def bins_coverage_def
      new_object_def)

lemma update_coverage_top:
  "update_coverage ''top'' 1 (point_registry counts nh 1 [])
     = (point_registry counts nh 2 [ThresholdFired ''top'' 50 7], None)"
  "update_coverage ''top'' 1 (point_registry counts nh 2 evs)
     = (point_registry counts nh 3 evs, None)"
  by (simp_all add: point_registry_def call_defs top_check_name(3) new_object_def Let_def
      fun_upd_twist)

subsection \<open>Ignore patterns\<close>

lemma ignore_match_all_None:
  "\<forall>i \<in> set ignore_bins. i = VNone \<Longrightarrow> ignore_match ignore_bins x_bins = Inr remove \<Longrightarrow> remove"
  by (induction ignore_bins x_bins arbitrary: remove rule: ignore_match.induct)
     (auto split: sum.splits if_splits)

lemma ignore_loop_subset: "set (fst (ignore_loop ign_bins x_bins h)) \<subseteq> set h"
proof (induction ign_bins arbitrary: h)
  case Nil
  show ?case by simp
next
  case (Cons pat rest)
  show ?case
  proof (cases "ignore_match pat x_bins")
    case (Inl e)
    then show ?thesis by simp
  next
    case (Inr remove)
    let ?h1 = "if remove \<and> has_key h (VTuple x_bins) then del_key h (VTuple x_bins) else h"
    have "set ?h1 \<subseteq> set h" by (auto simp: del_key_def)
    with Cons [of ?h1] Inr show ?thesis by auto
  qed
qed

lemma ignore_loop_removes:
  "ignore_bins \<in> set ign_bins \<Longrightarrow> \<forall>i \<in> set ignore_bins. i = VNone \<Longrightarrow>
   ignore_loop ign_bins x_bins h = (h', None) \<Longrightarrow> \<not> has_key h' (VTuple x_bins)"
proof (induction ign_bins x_bins h rule: ignore_loop.induct)
  case (1 x_bins h)
  then show ?case by simp
next
  case (2 pat rest x_bins h)
  from "2.prems"(3) obtain remove where m: "ignore_match pat x_bins = Inr remove"
    by (cases "ignore_match pat x_bins") auto
  let ?h1 = "if remove \<and> has_key h (VTuple x_bins) then del_key h (VTuple x_bins) else h"
  from "2.prems"(3) m have run: "ignore_loop rest x_bins ?h1 = (h', None)" by simp
  show ?case
  proof (cases "ignore_bins = pat")
    case True
    with "2.prems"(2) m have remove by (auto dest: ignore_match_all_None)
    then have "\<not> has_key ?h1 (VTuple x_bins)"
      by (auto simp: has_key_def del_key_def)
    moreover from ignore_loop_subset [of rest x_bins ?h1] run have "set h' \<subseteq> set ?h1"
      by simp
    ultimately show ?thesis by (auto simp: has_key_def)
  next
    case False
    with "2.prems"(1) have "ignore_bins \<in> set rest" by simp
    from "2.IH" [OF m this "2.prems"(2) run] show ?thesis .
  qed
qed

lemma remove_ignored_subset: "set (fst (remove_ignored ign_bins keys h)) \<subseteq> set h"
proof (induction ign_bins keys h rule: remove_ignored.induct)
  case (2 ign_bins x_bins rest h)
  obtain h1 e1 where r: "ignore_loop ign_bins x_bins h = (h1, e1)"
    by (cases "ignore_loop ign_bins x_bins h")
  with ignore_loop_subset [of ign_bins x_bins h] have s: "set h1 \<subseteq> set h" by simp
  show ?case
  proof (cases e1)
    case None
    with "2.IH" [OF r [symmetric]] r s show ?thesis by auto
  next
    case (Some e)
    with r s show ?thesis by simp
  qed
qed auto

lemma remove_ignored_removes:
  "ignore_bins \<in> set ign_bins \<Longrightarrow> \<forall>i \<in> set ignore_bins. i = VNone \<Longrightarrow>
   remove_ignored ign_bins keys h = (h', None) \<Longrightarrow> k \<in> set keys \<Longrightarrow> \<not> has_key h' k"
proof (induction ign_bins keys h rule: remove_ignored.induct)
  case (1 ign_bins h)
  then show ?case by simp
next
  case (2 ign_bins x_bins rest h)
  obtain h1 e1 where r: "ignore_loop ign_bins x_bins h = (h1, e1)"
    by (cases "ignore_loop ign_bins x_bins h")
  with "2.prems"(3) have e1: "e1 = None" and run: "remove_ignored ign_bins rest h1 = (h', None)"
    by (cases e1; simp)+
  show ?case
  proof (cases "k = VTuple x_bins")
    case True
    from ignore_loop_removes [OF "2.prems"(1,2)] r e1
    have "\<not> has_key h1 (VTuple x_bins)" by simp
    moreover from remove_ignored_subset [of ign_bins rest h1] run have "set h' \<subseteq> set h1"
      by simp
    ultimately show ?thesis using True by (auto simp: has_key_def)
  next
    case False
    with "2.prems"(4) have "k \<in> set rest" by simp
    from "2.IH" [OF r [symmetric] _ "2.prems"(1,2) run this] e1 show ?thesis by simp
  qed
qed (auto split: if_splits)

lemma remove_ignored_all:
  assumes "ignore_bins \<in> set ign_bins" "\<forall>i \<in> set ignore_bins. i = VNone"
    and "remove_ignored ign_bins (map fst h) h = (h', None)"
  shows "h' = []"
proof (rule ccontr)
  assume "h' \<noteq> []"
  then obtain kv where kv: "kv \<in> set h'" by (cases h') auto
  with remove_ignored_subset [of ign_bins "map fst h" h] assms(3) have "kv \<in> set h" by auto
  then have "fst kv \<in> set (map fst h)" by simp
  from remove_ignored_removes [OF assms this] kv show False
    by (auto simp: has_key_def)
qed

lemma update_size_exact:
  "coverage_db (update_size nm sz s) = add_size (path nm) sz (coverage_db s)"
proof (induction nm sz s rule: update_size.induct)
  case (1 nm sz s)
  let ?s1 = "modify nm (\<lambda>self. self\<lparr>u_size := u_size self + sz\<rparr>) s"
  show ?case
  proof (cases "has_dot nm")
    case False
    then have "path nm = [nm]" by (subst path.simps) simp
    with False show ?thesis
      by (subst update_size.simps) (auto simp: Let_def modify_def add_size_def fun_eq_iff)
  next
    case True
    then have p: "path nm = nm # path (parent_name nm)" by (subst path.simps) simp
    have "coverage_db (update_size nm sz s) = coverage_db (update_size (parent_name nm) sz ?s1)"
      using True by (subst update_size.simps) (simp add: Let_def)
    also have "\<dots> = add_size (path (parent_name nm)) sz (coverage_db ?s1)"
      using "1.IH" [OF refl True] .
    also have "\<dots> = add_size (path nm) sz (coverage_db s)"
      using not_in_path_parent [OF True]
      by (auto simp: p add_size_def modify_def fun_eq_iff)
    finally show ?thesis .
  qed
qed

lemma update_size_fired [simp]: "fired (update_size nm sz s) = fired s"
proof (induction nm sz s rule: update_size.induct)
  case (1 nm sz s)
  show ?case
    using "1.IH" [OF refl]
    by (subst update_size.simps) (simp add: Let_def modify_def)
qed

lemma update_size_parent [simp]:
  "has_dot nm \<Longrightarrow> coverage_db (update_size (parent_name nm) sz s) nm = coverage_db s nm"
  by (simp add: update_size_exact add_size_def not_in_path_parent)

lemma CoverCross_init_success:
  assumes fresh: "nm \<notin> dom (coverage_db s)"
    and run: "CoverCross_init nm its ign_bins wt al s = (s', None)"
  shows "\<exists>h0 h1. remove_ignored ign_bins (map fst h0) h0 = (h1, None) \<and>
           coverage_db s' nm = Some ((new_object Cross nm)
             \<lparr>weight := wt, at_least := al, items := its, hits := Some h1,
              u_size := wt * int (length h1)\<rparr>)"
proof -
  obtain s1 where s1: "CoverItem_init Cross nm s = (s1, None)"
    using CoverItem_init_ok [of Cross nm s] by (cases "CoverItem_init Cross nm s") auto
  from CoverItem_init_props [OF s1] have n1: "coverage_db s1 nm = Some (new_object Cross nm)"
    by simp
  from run fresh s1 have dot: "has_dot nm"
    by (auto simp: CoverCross_init_def split: if_splits)
  let ?s2 = "modify nm (\<lambda>self. self\<lparr>weight := wt, at_least := al, items := its\<rparr>) s1"
  from run fresh s1 dot obtain bins_lists where bl: "bins_lists_of its ?s2 = Inr bins_lists"
    by (cases "bins_lists_of its ?s2") (auto simp: CoverCross_init_def Let_def)
  let ?h0 = "fromkeys (map VTuple (itertools_product bins_lists)) (0::int)"
  let ?s3 = "modify nm (\<lambda>self. self\<lparr>hits := Some ?h0\<rparr>) ?s2"
  obtain h1 e1 where r: "remove_ignored ign_bins (map fst ?h0) ?h0 = (h1, e1)"
    by (cases "remove_ignored ign_bins (map fst ?h0) ?h0")
  from run fresh s1 dot bl r have e1: "e1 = None"
    by (cases e1) (auto simp: CoverCross_init_def Let_def)
  let ?sz = "wt * int (length h1)"
  let ?s4 = "modify nm (\<lambda>self. self\<lparr>hits := Some h1, u_size := ?sz\<rparr>) ?s3"
  from run fresh s1 dot bl r e1 have s': "s' = update_size (parent_name nm) ?sz ?s4"
    by (auto simp: CoverCross_init_def Let_def)
  have "coverage_db s' nm = coverage_db ?s4 nm"
    unfolding s' using dot by simp
  also have "\<dots> = Some ((new_object Cross nm)
             \<lparr>weight := wt, at_least := al, items := its, hits := Some h1, u_size := ?sz\<rparr>)"
    using n1 by (simp add: modify_def)
  finally show ?thesis using r e1 by blast
qed

subsection \<open>The invariant of the registry\<close>

lemma path_ancestors: "path x = x # ancestors x"
  by (subst path.simps) (simp add: ancestors_def)

lemma ancestors_no_dot: "\<not> has_dot x \<Longrightarrow> ancestors x = []"
  by (simp add: ancestors_def)

lemma ancestors_dot:
  "has_dot x \<Longrightarrow> ancestors x = parent_name x # ancestors (parent_name x)"
proof -
  assume "has_dot x"
  then have "ancestors x = path (parent_name x)" by (simp add: ancestors_def)
  also have "\<dots> = parent_name x # ancestors (parent_name x)" by (rule path_ancestors)
  finally show ?thesis .
qed

lemma ancestors_shorter: "m \<in> set (ancestors x) \<Longrightarrow> length m < length x"
proof -
  assume a: "m \<in> set (ancestors x)"
  then have dot: "has_dot x" by (cases "has_dot x") (simp_all add: ancestors_def)
  with a have "m \<in> set (path (parent_name x))" by (simp add: ancestors_def)
  from path_length [OF this] parent_name_less [OF dot] show ?thesis by simp
qed

lemma not_own_ancestor [simp]: "x \<notin> set (ancestors x)"
  using ancestors_shorter [of x x] by auto

lemma ancestors_trans:
  "m \<in> set (ancestors x) \<Longrightarrow> x \<in> set (ancestors y) \<Longrightarrow> m \<in> set (ancestors y)"
proof (induction y rule: path.induct)
  case (1 y)
  from "1.prems"(2) have dot: "has_dot y"
    by (cases "has_dot y") (simp_all add: ancestors_def)
  from "1.prems"(2) have "x = parent_name y \<or> x \<in> set (ancestors (parent_name y))"
    by (simp add: ancestors_dot [OF dot])
  then have "m \<in> set (ancestors (parent_name y))"
  proof
    assume "x = parent_name y"
    with "1.prems"(1) show ?thesis by simp
  next
    assume "x \<in> set (ancestors (parent_name y))"
    from "1.IH" [OF dot "1.prems"(1) this] show ?thesis .
  qed
  then show ?case by (simp add: ancestors_dot [OF dot])
qed

lemma closed_ancestors: "closed db \<Longrightarrow> x \<in> dom db \<Longrightarrow> set (ancestors x) \<subseteq> dom db"
proof (induction x rule: path.induct)
  case (1 x)
  show ?case
  proof (cases "has_dot x")
    case False
    then show ?thesis by (simp add: ancestors_no_dot)
  next
    case True
    with "1.prems" have p: "parent_name x \<in> dom db" by (auto simp: closed_def)
    from "1.IH" [OF True "1.prems"(1) p] p show ?thesis
      by (simp add: ancestors_dot [OF True])
  qed
qed

lemma closed_path: "closed db \<Longrightarrow> x \<in> dom db \<Longrightarrow> set (path x) \<subseteq> dom db"
  using closed_ancestors [of db x] by (simp add: path_ancestors)

lemma total_change:
  assumes fin: "finite (dom db)" and dom: "dom db' = dom db"
    and x: "db x = Some n" "db' x = Some n'"
    and rest: "\<And>y k k'. y \<noteq> x \<Longrightarrow> db y = Some k \<Longrightarrow> db' y = Some k' \<Longrightarrow> f k' = f k"
  shows "total f db' m = total f db m + (if m \<in> set (ancestors x) then f n' - f n else 0)"
proof -
  let ?g = "\<lambda>db y. if m \<in> set (ancestors y)
                   then (case db y of None \<Rightarrow> 0 | Some n \<Rightarrow> f n) else (0::int)"
  have xin: "x \<in> dom db" using x by auto
  have eq: "?g db' y = ?g db y" if "y \<in> dom db - {x}" for y
  proof -
    from that have y: "y \<in> dom db" "y \<noteq> x" by auto
    then obtain k where k: "db y = Some k" by auto
    from y dom have "y \<in> dom db'" by simp
    then obtain k' where k': "db' y = Some k'" by auto
    from rest [OF y(2) k k'] k k' show ?thesis by simp
  qed
  have "total f db' m = sum (?g db') (dom db)" by (simp add: total_def dom)
  also have "\<dots> = ?g db' x + sum (?g db') (dom db - {x})"
    using fin xin by (rule sum.remove)
  also have "sum (?g db') (dom db - {x}) = sum (?g db) (dom db - {x})"
    using eq by (rule sum.cong [OF refl])
  finally have a: "total f db' m = ?g db' x + sum (?g db) (dom db - {x})" .
  have "total f db m = ?g db x + sum (?g db) (dom db - {x})"
    unfolding total_def using fin xin by (rule sum.remove)
  with a x show ?thesis by simp
qed

lemma total_nonneg:
  "(\<And>x n. db x = Some n \<Longrightarrow> 0 \<le> f n) \<Longrightarrow> 0 \<le> total f db m"
  unfolding total_def by (rule sum_nonneg) (auto split: option.splits)

lemma up_cong:
  "hits n' = hits n \<Longrightarrow> kind n' = kind n \<Longrightarrow> weight n' = weight n \<Longrightarrow>
   at_least n' = at_least n \<Longrightarrow> up n' = up n"
  by (simp add: up_def unhit_def check_up_def split: option.splits kind.splits)

lemma down_cong:
  "hits n' = hits n \<Longrightarrow> kind n' = kind n \<Longrightarrow> weight n' = weight n \<Longrightarrow>
   at_least n' = at_least n \<Longrightarrow> down n' = down n"
  by (simp add: down_def coverage_def check_coverage_def split: option.splits kind.splits)

lemma node_ok_mono:
  "node_ok m n \<Longrightarrow> hits n' = hits n \<Longrightarrow> kind n' = kind n \<Longrightarrow> weight n' = weight n \<Longrightarrow>
   at_least n' = at_least n \<Longrightarrow> u_size n \<le> u_size n' \<Longrightarrow> node_ok m n'"
  by (auto simp: node_ok_def split: kind.splits)

lemma up_u_coverage [simp]: "up (n\<lparr>u_coverage := c\<rparr>) = up n"
  by (rule up_cong) simp_all

lemma down_u_coverage [simp]: "down (n\<lparr>u_coverage := c\<rparr>) = down n"
  by (rule down_cong) simp_all

lemma node_ok_u_coverage [simp]: "node_ok m (n\<lparr>u_coverage := c\<rparr>) = node_ok m n"
  by (auto elim: node_ok_mono)

lemma unhit_bounds: "0 \<le> unhit n h" "unhit n h \<le> int (length h)"
  by (simp_all add: unhit_def)

lemma up_nonneg: "node_ok m n \<Longrightarrow> 0 \<le> up n"
  by (auto simp: node_ok_def up_def check_up_def unhit_bounds
      split: kind.splits option.splits)

lemma down_nonneg: "node_ok m n \<Longrightarrow> 0 \<le> down n"
  by (auto simp: node_ok_def down_def coverage_def check_coverage_def
      split: kind.splits option.splits)

lemma add_coverage_dom [simp]: "dom (add_coverage nms d db) = dom db"
  by (auto simp: add_coverage_def dom_def split: if_splits)

lemma inv_step:
  assumes inv: "inv db" and x: "db x = Some n"
    and db': "db' = add_coverage (ancestors x) d (db(x \<mapsto> n'))"
    and ok: "node_ok x n'"
    and same: "u_coverage n' = u_coverage n" "u_size n' = u_size n"
    and up: "up n' \<le> up n - d" and down: "down n' \<le> down n + d"
  shows "inv db'"
proof -
  from inv have fin: "finite (dom db)" and cl: "closed db"
    and nodes: "\<And>m k. db m = Some k \<Longrightarrow>
        node_ok m k \<and> total down db m \<le> u_coverage k \<and> u_coverage k + total up db m \<le> u_size k"
    by (auto simp: inv_def)
  from x have dom: "dom db' = dom db" by (auto simp: db')
  have x': "db' x = Some n'" by (simp add: db' add_coverage_def)
  have other: "db' y = (if y \<in> set (ancestors x)
                        then map_option (\<lambda>k. k\<lparr>u_coverage := u_coverage k + d\<rparr>) (db y)
                        else db y)" if "y \<noteq> x" for y
    using that by (simp add: db' add_coverage_def)
  have tu: "total up db' m = total up db m + (if m \<in> set (ancestors x) then up n' - up n else 0)"
    for m
    by (rule total_change [OF fin dom x x']) (auto simp: other split: if_splits)
  have td: "total down db' m
            = total down db m + (if m \<in> set (ancestors x) then down n' - down n else 0)" for m
    by (rule total_change [OF fin dom x x']) (auto simp: other split: if_splits)
  have "node_ok m k \<and> total down db' m \<le> u_coverage k \<and> u_coverage k + total up db' m \<le> u_size k"
    if mk: "db' m = Some k" for m k
  proof (cases "m = x")
    case True
    with mk x' have "k = n'" by simp
    with nodes [OF x] ok same True show ?thesis by (simp add: tu td)
  next
    case False
    show ?thesis
    proof (cases "m \<in> set (ancestors x)")
      case True
      with mk other [OF False] obtain k0 where
        k0: "db m = Some k0" "k = k0\<lparr>u_coverage := u_coverage k0 + d\<rparr>" by auto
      with nodes [OF k0(1)] True up down show ?thesis by (simp add: tu td)
    next
      case False
      with mk other [OF \<open>m \<noteq> x\<close>] have "db m = Some k" by simp
      with nodes [OF this] False show ?thesis by (simp add: tu td)
    qed
  qed
  with fin cl dom show ?thesis by (simp add: inv_def closed_def)
qed

lemma add_coverage_zero [simp]: "add_coverage nms 0 db = db"
proof
  fix m
  show "add_coverage nms 0 db m = db m"
    by (cases "db m") (simp_all add: add_coverage_def)
qed

lemma inv_local:
  assumes "inv db" "db x = Some n" "node_ok x n'"
    "u_coverage n' = u_coverage n" "u_size n' = u_size n" "up n' \<le> up n" "down n' \<le> down n"
  shows "inv (db(x \<mapsto> n'))"
  using inv_step [OF assms(1,2) _ assms(3,4,5), of "db(x \<mapsto> n')" 0] assms(6,7) by simp

lemma inv_reported:
  assumes inv: "inv (coverage_db s)" and x: "coverage_db s x = Some n" and dot: "has_dot x"
    and ok: "node_ok x n'"
    and same: "u_coverage n' = u_coverage n" "u_size n' = u_size n"
    and up: "up n' \<le> up n - d" and down: "down n' \<le> down n + d"
  shows "inv (coverage_db (fst (update_coverage (parent_name x) d
            (s\<lparr>coverage_db := (coverage_db s)(x \<mapsto> n'), fired := evs\<rparr>))))"
proof -
  let ?s2 = "s\<lparr>coverage_db := (coverage_db s)(x \<mapsto> n'), fired := evs\<rparr>"
  from inv have cl: "closed (coverage_db s)" by (simp add: inv_def)
  from x have "x \<in> dom (coverage_db s)" by auto
  from closed_ancestors [OF cl this] dot
  have "set (path (parent_name x)) \<subseteq> dom (coverage_db ?s2)"
    by (auto simp: ancestors_def)
  from update_coverage_exact [OF this, of d] dot
  have "coverage_db (fst (update_coverage (parent_name x) d ?s2))
        = add_coverage (ancestors x) d ((coverage_db s)(x \<mapsto> n'))"
    by (simp add: ancestors_def)
  with inv_step [OF inv x _ ok same up down] show ?thesis by simp
qed

lemma unhit_mono:
  "list_all2 (\<lambda>x y. snd x \<le> snd y) h h' \<Longrightarrow> at_least n' = at_least n \<Longrightarrow>
   unhit n' h' \<le> unhit n h"
  unfolding unhit_def
  by (induction h h' rule: list_all2_induct) auto

lemma bins_step:
  assumes ok: "node_ok x n" and k: "kind n = Point \<or> kind n = Cross" and h: "hits n = Some h"
    and h': "map (\<lambda>kc. (fst kc, 0::int)) h' = map (\<lambda>kc. (fst kc, 0)) h"
         "list_all2 (\<lambda>x y. snd x \<le> snd y) h h'"
    and n': "n' = n\<lparr>hits := Some h'\<rparr> \<or> n' = n\<lparr>hits := Some h', new_hits := nh\<rparr>"
  shows "node_ok x n'" "u_coverage n' = u_coverage n" "u_size n' = u_size n"
    "up n' \<le> up n - (bins_coverage n' h' - bins_coverage n h)"
    "down n' \<le> down n + (bins_coverage n' h' - bins_coverage n h)"
proof -
  from h'(1) have len: "length h' = length h" by (rule map_eq_imp_length_eq)
  from n' have f: "kind n' = kind n" "weight n' = weight n" "at_least n' = at_least n"
    "u_size n' = u_size n" "u_coverage n' = u_coverage n" "hits n' = Some h'"
    by auto
  from ok k h have w: "0 \<le> weight n" by (auto simp: node_ok_def)
  from ok k h f len show "node_ok x n'" by (auto simp: node_ok_def)
  from f show "u_coverage n' = u_coverage n" "u_size n' = u_size n" by simp_all
  have d: "bins_coverage n' h' - bins_coverage n h = weight n * unhit n h - weight n * unhit n' h'"
    using f by (simp add: bins_coverage_eq unhit_def)
  from k h f have u: "up n = weight n * unhit n h" "up n' = weight n * unhit n' h'"
    by (auto simp: up_def)
  from u d show "up n' \<le> up n - (bins_coverage n' h' - bins_coverage n h)" by simp
  from unhit_mono [OF h'(2) f(3)] w
  have "weight n * unhit n' h' \<le> weight n * unhit n h" by (rule mult_left_mono)
  with d k f show "down n' \<le> down n + (bins_coverage n' h' - bins_coverage n h)"
    by (auto simp: down_def)
qed

lemma new_hits_irrelevant [simp]:
  "up (n\<lparr>new_hits := c\<rparr>) = up n" "down (n\<lparr>new_hits := c\<rparr>) = down n"
  "node_ok m (n\<lparr>new_hits := c\<rparr>) = node_ok m n"
proof -
  show "up (n\<lparr>new_hits := c\<rparr>) = up n" by (rule up_cong) simp_all
  show "down (n\<lparr>new_hits := c\<rparr>) = down n" by (rule down_cong) simp_all
  show "node_ok m (n\<lparr>new_hits := c\<rparr>) = node_ok m n" by (auto elim: node_ok_mono)
qed


lemma CoverPoint_call_db:
  assumes x: "coverage_db s x = Some n" and h: "hits n = Some h" and dot: "has_dot x"
    and r: "(case transformation n of None \<Rightarrow> dummy_f cb_args | Some xf \<Rightarrow> Inr (xf cb_args))
            = Inr result"
    and m: "match_bins x n result h = (h', nh, evs)"
  shows "coverage_db (fst (CoverPoint_call x cb_args s))
           = coverage_db (fst (update_coverage (parent_name x)
               (bins_coverage (n\<lparr>hits := Some h', new_hits := nh\<rparr>) h' - bins_coverage n h)
               (s\<lparr>coverage_db := (coverage_db s)(x \<mapsto> n\<lparr>hits := Some h', new_hits := nh\<rparr>),
                  fired := fired s @ evs\<rparr>)))"
proof -
  let ?u = "update_coverage (parent_name x)
               (bins_coverage (n\<lparr>hits := Some h', new_hits := nh\<rparr>) h' - bins_coverage n h)
               (s\<lparr>coverage_db := (coverage_db s)(x \<mapsto> n\<lparr>hits := Some h', new_hits := nh\<rparr>),
                  fired := fired s @ evs\<rparr>)"
  obtain s3 e3 where u: "?u = (s3, e3)" by (cases ?u)
  have "CoverPoint_call x cb_args s =
          (case e3 of Some e \<Rightarrow> (s3, Some e)
           | None \<Rightarrow> threshold_loop x (n\<lparr>hits := Some h', new_hits := nh\<rparr>) (bins_coverage n h)
                       (threshold_callbacks n) s3)"
    using x h r m dot u by (simp add: CoverPoint_call_def Let_def)
  then show ?thesis using u by (cases e3) simp_all
qed


lemma CoverCross_call_db:
  assumes x: "coverage_db s x = Some n" and h: "hits n = Some h" and dot: "has_dot x"
    and r: "hit_lists_of (items n) s = Inr hit_lists"
    and m: "cross_hit_loop x n (map VTuple (itertools_product hit_lists)) h = (h', evs)"
  shows "coverage_db (fst (CoverCross_call x s))
           = coverage_db (fst (update_coverage (parent_name x)
               (bins_coverage (n\<lparr>hits := Some h'\<rparr>) h' - bins_coverage n h)
               (s\<lparr>coverage_db := (coverage_db s)(x \<mapsto> n\<lparr>hits := Some h'\<rparr>),
                  fired := fired s @ evs\<rparr>)))"
proof -
  let ?u = "update_coverage (parent_name x)
               (bins_coverage (n\<lparr>hits := Some h'\<rparr>) h' - bins_coverage n h)
               (s\<lparr>coverage_db := (coverage_db s)(x \<mapsto> n\<lparr>hits := Some h'\<rparr>),
                  fired := fired s @ evs\<rparr>)"
  obtain s3 e3 where u: "?u = (s3, e3)" by (cases ?u)
  have "CoverCross_call x s =
          (case e3 of Some e \<Rightarrow> (s3, Some e)
           | None \<Rightarrow> threshold_loop x (n\<lparr>hits := Some h'\<rparr>) (bins_coverage n h)
                       (threshold_callbacks n) s3)"
    using x h r m dot u by (simp add: CoverCross_call_def Let_def)
  then show ?thesis using u by (cases e3) simp_all
qed

lemma CoverPoint_call_inv:
  assumes inv: "inv (coverage_db s)" and x: "coverage_db s x = Some n" and k: "kind n = Point"
  shows "inv (coverage_db (fst (CoverPoint_call x cb_args s)))"
proof -
  from inv x have ok: "node_ok x n" by (simp add: inv_def)
  with k obtain h where h: "hits n = Some h" and dot: "has_dot x"
    by (auto simp: node_ok_def)
  show ?thesis
  proof (cases "case transformation n of None \<Rightarrow> dummy_f cb_args | Some xf \<Rightarrow> Inr (xf cb_args)")
    case (Inl e)
    have "inv ((coverage_db s)(x \<mapsto> n\<lparr>new_hits := []\<rparr>))"
      by (rule inv_local [OF inv x]) (use ok in simp_all)
    with x h Inl show ?thesis by (simp add: CoverPoint_call_def modify_def)
  next
    case (Inr result)
    obtain h' nh evs where m: "match_bins x n result h = (h', nh, evs)"
      by (cases "match_bins x n result h")
    let ?n' = "n\<lparr>hits := Some h', new_hits := nh\<rparr>"
    let ?d = "bins_coverage ?n' h' - bins_coverage n h"
    from match_bins_hits [OF m] have hh: "map (\<lambda>kc. (fst kc, 0::int)) h' = map (\<lambda>kc. (fst kc, 0)) h"
      "list_all2 (\<lambda>x y. snd x \<le> snd y) h h'" by simp_all
    have k': "kind n = Point \<or> kind n = Cross" using k by simp
    have n': "?n' = n\<lparr>hits := Some h'\<rparr> \<or> ?n' = n\<lparr>hits := Some h', new_hits := nh\<rparr>"
      by simp
    note b = bins_step [OF ok k' h hh n']
    show ?thesis
      unfolding CoverPoint_call_db [OF x h dot Inr m]
      by (rule inv_reported [OF inv x dot b])
  qed
qed

lemma CoverCross_call_inv:
  assumes inv: "inv (coverage_db s)" and x: "coverage_db s x = Some n" and k: "kind n = Cross"
  shows "inv (coverage_db (fst (CoverCross_call x s)))"
proof -
  from inv x have ok: "node_ok x n" by (simp add: inv_def)
  with k obtain h where h: "hits n = Some h" and dot: "has_dot x"
    by (auto simp: node_ok_def)
  show ?thesis
  proof (cases "hit_lists_of (items n) s")
    case (Inl e)
    with x h inv show ?thesis by (simp add: CoverCross_call_def)
  next
    case (Inr hit_lists)
    obtain h' evs where
      m: "cross_hit_loop x n (map VTuple (itertools_product hit_lists)) h = (h', evs)"
      by (cases "cross_hit_loop x n (map VTuple (itertools_product hit_lists)) h")
    let ?n' = "n\<lparr>hits := Some h'\<rparr>"
    from cross_hit_loop_hits [OF m]
    have hh: "map (\<lambda>kc. (fst kc, 0::int)) h' = map (\<lambda>kc. (fst kc, 0)) h"
      "list_all2 (\<lambda>x y. snd x \<le> snd y) h h'" by simp_all
    have k': "kind n = Point \<or> kind n = Cross" using k by simp
    have n': "?n' = n\<lparr>hits := Some h'\<rparr> \<or> ?n' = n\<lparr>hits := Some h', new_hits := []\<rparr>"
      by simp
    note b = bins_step [OF ok k' h hh n']
    show ?thesis
      unfolding CoverCross_call_db [OF x h dot Inr m]
      by (rule inv_reported [OF inv x dot b])
  qed
qed

lemma check_step:
  assumes ok: "node_ok x n" and k: "kind n = Check" and h: "hits n = Some h"
  shows "\<exists>cov cov'.
           check_coverage n h = Inr cov \<and>
           check_coverage (n\<lparr>hits := Some (check_count passed h)\<rparr>) (check_count passed h)
             = Inr cov' \<and>
           node_ok x (n\<lparr>hits := Some (check_count passed h)\<rparr>) \<and>
           (passed \<noteq> None \<longrightarrow>
              up (n\<lparr>hits := Some (check_count passed h)\<rparr>) \<le> up n - (cov' - cov) \<and>
              down (n\<lparr>hits := Some (check_count passed h)\<rparr>) \<le> down n + (cov' - cov)) \<and>
           (passed = None \<longrightarrow>
              up (n\<lparr>hits := Some (check_count passed h)\<rparr>) \<le> up n \<and>
              down (n\<lparr>hits := Some (check_count passed h)\<rparr>) \<le> down n)"
proof -
  from ok k h obtain npass nfail where
    hh: "h = [(VStr ''PASS'', npass), (VStr ''FAIL'', nfail)]" and f: "0 \<le> nfail"
    and w: "0 \<le> weight n" "weight n \<le> u_size n" and al: "0 \<le> at_least n" and dot: "has_dot x"
    by (auto simp: node_ok_def)
  show ?thesis
  proof (cases passed)
    case None
    with k h f w al dot show ?thesis
      unfolding hh
      by (simp add: check_count_def incr_def check_coverage_def up_def down_def check_up_def
          coverage_def node_ok_def)
  next
    case (Some b)
    with k h f w al dot show ?thesis
      unfolding hh
      by (cases b)
         (simp_all add: check_count_def incr_def check_coverage_def up_def down_def check_up_def
          coverage_def node_ok_def)
  qed
qed

lemma CoverCheck_call_db:
  assumes x: "coverage_db s x = Some n" and h: "hits n = Some h" and dot: "has_dot x"
    and c: "check_coverage n h = Inr cov"
    and c': "check_coverage (n\<lparr>hits := Some (check_count (check_passed n cb_args) h)\<rparr>)
               (check_count (check_passed n cb_args) h) = Inr cov'"
  shows "coverage_db (fst (CoverCheck_call x cb_args s)) =
           (if check_passed n cb_args \<noteq> None
            then coverage_db (fst (update_coverage (parent_name x) (cov' - cov)
                   (s\<lparr>coverage_db := (coverage_db s)
                        (x \<mapsto> n\<lparr>hits := Some (check_count (check_passed n cb_args) h)\<rparr>),
                      fired := fired s\<rparr>)))
            else (coverage_db s)
                   (x \<mapsto> n\<lparr>hits := Some (check_count (check_passed n cb_args) h)\<rparr>))"
proof -
  let ?n' = "n\<lparr>hits := Some (check_count (check_passed n cb_args) h)\<rparr>"
  let ?s1 = "s\<lparr>coverage_db := (coverage_db s)(x \<mapsto> ?n')\<rparr>"
  let ?u = "update_coverage (parent_name x) (cov' - cov) ?s1"
  let ?t = "threshold_loop x ?n' cov (threshold_callbacks n) (fst ?u)"
  obtain s3 e3 where u: "?u = (s3, e3)" by (cases ?u)
  obtain s4 e4 where t: "threshold_loop x ?n' cov (threshold_callbacks n) s3 = (s4, e4)"
    by (cases "threshold_loop x ?n' cov (threshold_callbacks n) s3")
  from t have t': "coverage_db s4 = coverage_db s3"
    using threshold_loop_db [of x ?n' cov "threshold_callbacks n" s3] by simp
  have "CoverCheck_call x cb_args s =
          (if check_passed n cb_args \<noteq> None
           then (case e3 of Some e \<Rightarrow> (s3, Some e)
                 | None \<Rightarrow> (case e4 of Some e \<Rightarrow> (s4, Some e)
                            | None \<Rightarrow> (check_bins_callbacks x ?n' (check_passed n cb_args) s4, None)))
           else (?s1, None))"
    using x h c c' dot u t by (simp add: CoverCheck_call_def Let_def)
  then show ?thesis using u t' by (cases e3; cases e4) simp_all
qed

lemma CoverCheck_call_inv:
  assumes inv: "inv (coverage_db s)" and x: "coverage_db s x = Some n" and k: "kind n = Check"
  shows "inv (coverage_db (fst (CoverCheck_call x cb_args s)))"
proof -
  from inv x have ok: "node_ok x n" by (simp add: inv_def)
  with k obtain h where h: "hits n = Some h" and dot: "has_dot x"
    by (auto simp: node_ok_def)
  let ?passed = "check_passed n cb_args"
  let ?n' = "n\<lparr>hits := Some (check_count ?passed h)\<rparr>"
  from check_step [OF ok k h, of ?passed] obtain cov cov' where
    all: "check_coverage n h = Inr cov \<and>
          check_coverage ?n' (check_count ?passed h) = Inr cov' \<and> node_ok x ?n' \<and>
          (?passed \<noteq> None \<longrightarrow> up ?n' \<le> up n - (cov' - cov) \<and>
                                 down ?n' \<le> down n + (cov' - cov)) \<and>
          (?passed = None \<longrightarrow> up ?n' \<le> up n \<and> down ?n' \<le> down n)"
    by (elim exE) (rule that)
  then have c: "check_coverage n h = Inr cov"
      "check_coverage ?n' (check_count ?passed h) = Inr cov'"
    and ok': "node_ok x ?n'" by simp_all
  from all have rep: "?passed \<noteq> None \<Longrightarrow> up ?n' \<le> up n - (cov' - cov)"
             "?passed \<noteq> None \<Longrightarrow> down ?n' \<le> down n + (cov' - cov)"
    and loc: "?passed = None \<Longrightarrow> up ?n' \<le> up n" "?passed = None \<Longrightarrow> down ?n' \<le> down n"
    by simp_all
  show ?thesis
  proof (cases "?passed = None")
    case True
    have "inv ((coverage_db s)(x \<mapsto> ?n'))"
      by (rule inv_local [OF inv x ok' _ _ loc [OF True]]) simp_all
    with True show ?thesis by (simp add: CoverCheck_call_db [OF x h dot c])
  next
    case False
    have "inv (coverage_db (fst (update_coverage (parent_name x) (cov' - cov)
                   (s\<lparr>coverage_db := (coverage_db s)(x \<mapsto> ?n'), fired := fired s\<rparr>))))"
      by (rule inv_reported [OF inv x dot ok' _ _ rep [OF False]]) simp_all
    with False show ?thesis by (simp add: CoverCheck_call_db [OF x h dot c])
  qed
qed

lemma sample_inv: "inv (coverage_db s) \<Longrightarrow> inv (coverage_db (fst (sample nm cb_args s)))"
  by (auto simp: sample_def CoverPoint_call_inv CoverCross_call_inv CoverCheck_call_inv
      split: option.splits kind.splits)

lemma callbacks_irrelevant [simp]:
  "up (n\<lparr>threshold_callbacks := c\<rparr>) = up n" "down (n\<lparr>threshold_callbacks := c\<rparr>) = down n"
  "node_ok m (n\<lparr>threshold_callbacks := c\<rparr>) = node_ok m n"
  "up (n\<lparr>bins_callbacks := b\<rparr>) = up n" "down (n\<lparr>bins_callbacks := b\<rparr>) = down n"
  "node_ok m (n\<lparr>bins_callbacks := b\<rparr>) = node_ok m n"
proof -
  show "up (n\<lparr>threshold_callbacks := c\<rparr>) = up n" by (rule up_cong) simp_all
  show "down (n\<lparr>threshold_callbacks := c\<rparr>) = down n" by (rule down_cong) simp_all
  show "node_ok m (n\<lparr>threshold_callbacks := c\<rparr>) = node_ok m n"
    by (auto elim: node_ok_mono)
  show "up (n\<lparr>bins_callbacks := b\<rparr>) = up n" by (rule up_cong) simp_all
  show "down (n\<lparr>bins_callbacks := b\<rparr>) = down n" by (rule down_cong) simp_all
  show "node_ok m (n\<lparr>bins_callbacks := b\<rparr>) = node_ok m n"
    by (auto elim: node_ok_mono)
qed

lemma add_threshold_callback_inv:
  assumes "inv (coverage_db s)"
  shows "inv (coverage_db (add_threshold_callback nm cb threshold s))"
proof (cases "coverage_db s nm")
  case None
  then have "coverage_db (add_threshold_callback nm cb threshold s) = coverage_db s"
    by (auto simp: add_threshold_callback_def modify_def)
  with assms show ?thesis by simp
next
  case (Some n)
  let ?n' = "n\<lparr>threshold_callbacks := dict_set (threshold_callbacks n) threshold cb\<rparr>"
  from assms Some have "node_ok nm n" by (simp add: inv_def)
  then have "inv ((coverage_db s)(nm \<mapsto> ?n'))"
    by (intro inv_local [OF assms Some]) simp_all
  with Some show ?thesis by (simp add: add_threshold_callback_def modify_def)
qed

lemma add_bins_callback_inv:
  assumes "inv (coverage_db s)"
  shows "inv (coverage_db (add_bins_callback nm cb bins s))"
proof (cases "coverage_db s nm")
  case None
  then have "coverage_db (add_bins_callback nm cb bins s) = coverage_db s"
    by (auto simp: add_bins_callback_def modify_def)
  with assms show ?thesis by simp
next
  case (Some n)
  let ?n' = "n\<lparr>bins_callbacks := dict_set (bins_callbacks n) bins cb\<rparr>"
  from assms Some have "node_ok nm n" by (simp add: inv_def)
  then have "inv ((coverage_db s)(nm \<mapsto> ?n'))"
    by (intro inv_local [OF assms Some]) simp_all
  with Some show ?thesis by (simp add: add_bins_callback_def modify_def)
qed

lemma total_unregistered:
  assumes "closed db" "m \<notin> dom db"
  shows "total f db m = 0"
proof -
  have "m \<notin> set (ancestors x)" if "x \<in> dom db" for x
    using closed_ancestors [OF assms(1) that] assms(2) by auto
  then show ?thesis by (simp add: total_def)
qed

lemma path_parent_closed:
  "m \<in> set (path nm) \<Longrightarrow> has_dot m \<Longrightarrow> parent_name m \<in> set (path nm)"
proof (induction nm rule: path.induct)
  case (1 nm)
  show ?case
  proof (cases "m = nm")
    case True
    with "1.prems"(2) have "ancestors nm = parent_name nm # ancestors (parent_name nm)"
      by (simp add: ancestors_dot)
    with True show ?thesis by (simp add: path_ancestors [of nm])
  next
    case False
    with "1.prems"(1) have a: "m \<in> set (ancestors nm)" by (simp add: path_ancestors [of nm])
    then have dot: "has_dot nm" by (cases "has_dot nm") (simp_all add: ancestors_def)
    with a have "m \<in> set (path (parent_name nm))" by (simp add: ancestors_def)
    from "1.IH" [OF dot this "1.prems"(2)] dot show ?thesis
      by (simp add: path_ancestors [of nm] ancestors_def)
  qed
qed

lemma total_register:
  assumes fin: "finite (dom db)" and cl: "closed db" and fresh: "nm \<notin> dom db"
    and dom': "dom db' = dom db \<union> set (path nm)"
    and old: "\<And>x k. db x = Some k \<Longrightarrow> \<exists>k'. db' x = Some k' \<and> f k' = f k"
    and new: "\<And>x k'. x \<notin> dom db \<Longrightarrow> x \<noteq> nm \<Longrightarrow> db' x = Some k' \<Longrightarrow> f k' = 0"
    and nm: "db' nm = Some final"
  shows "total f db' m = total f db m + (if m \<in> set (ancestors nm) then f final else 0)"
proof -
  let ?g = "\<lambda>db x. if m \<in> set (ancestors x)
                   then (case db x of None \<Rightarrow> 0 | Some n \<Rightarrow> f n) else (0::int)"
  let ?N = "set (path nm) - dom db"
  have nmN: "nm \<in> ?N" using fresh self_in_path [of nm] by simp
  have finN: "finite ?N" by simp
  have "total f db' m = sum (?g db') (dom db \<union> ?N)"
    unfolding total_def dom' by (rule arg_cong [where f = "sum (?g db')"]) auto
  also have "\<dots> = sum (?g db') (dom db) + sum (?g db') ?N"
    by (rule sum.union_disjoint [OF fin finN]) auto
  also have "sum (?g db') (dom db) = sum (?g db) (dom db)"
  proof (rule sum.cong [OF refl])
    fix x assume "x \<in> dom db"
    then obtain k where k: "db x = Some k" by auto
    from old [OF k] obtain k' where "db' x = Some k'" "f k' = f k" by blast
    with k show "?g db' x = ?g db x" by simp
  qed
  also have "sum (?g db') ?N = ?g db' nm + sum (?g db') (?N - {nm})"
    using finN nmN by (rule sum.remove)
  also have "sum (?g db') (?N - {nm}) = 0"
  proof (rule sum.neutral, rule ballI)
    fix x assume x: "x \<in> ?N - {nm}"
    show "?g db' x = 0"
    proof (cases "db' x")
      case None
      then show ?thesis by simp
    next
      case (Some k')
      with new [of x k'] x show ?thesis by simp
    qed
  qed
  finally show ?thesis using nm by (simp add: total_def)
qed

lemma no_children_fields:
  assumes "no_children a = no_children b"
  shows "hits a = hits b" "kind a = kind b" "weight a = weight b" "at_least a = at_least b"
    "u_size a = u_size b" "u_coverage a = u_coverage b"
proof -
  from arg_cong [OF assms, of hits] show "hits a = hits b" by (simp add: no_children_def)
  from arg_cong [OF assms, of kind] show "kind a = kind b" by (simp add: no_children_def)
  from arg_cong [OF assms, of weight] show "weight a = weight b" by (simp add: no_children_def)
  from arg_cong [OF assms, of at_least] show "at_least a = at_least b"
    by (simp add: no_children_def)
  from arg_cong [OF assms, of u_size] show "u_size a = u_size b" by (simp add: no_children_def)
  from arg_cong [OF assms, of u_coverage] show "u_coverage a = u_coverage b"
    by (simp add: no_children_def)
qed

lemma new_item_fields:
  assumes "no_children a = new_object Item m"
  shows "kind a = Item" "hits a = None" "u_size a = 0" "u_coverage a = 0"
proof -
  have "no_children (new_object Item m) = new_object Item m"
    by (simp add: no_children_def new_object_def)
  with assms have "no_children a = no_children (new_object Item m)" by simp
  from no_children_fields [OF this]
  show "kind a = Item" "hits a = None" "u_size a = 0" "u_coverage a = 0"
    by (simp_all add: new_object_def)
qed

lemma size_irrelevant [simp]:
  "up (n\<lparr>u_size := c\<rparr>) = up n" "down (n\<lparr>u_size := c\<rparr>) = down n"
proof -
  show "up (n\<lparr>u_size := c\<rparr>) = up n" by (rule up_cong) simp_all
  show "down (n\<lparr>u_size := c\<rparr>) = down n" by (rule down_cong) simp_all
qed

lemma add_size_dom [simp]: "dom (add_size nms d db) = dom db"
  by (auto simp: add_size_def dom_def split: if_splits)

lemma inv_register:
  assumes inv: "inv db" and fresh: "nm \<notin> dom db"
    and rel: "\<And>m. m \<noteq> nm \<Longrightarrow> init_rel nm m (db m) (db1 m)"
    and pathdom: "set (path nm) \<subseteq> dom db1"
    and db': "db' = add_size (ancestors nm) sz (db1(nm \<mapsto> final))"
    and ok: "node_ok nm final" and cov0: "u_coverage final = 0" and size: "u_size final = sz"
    and up: "up final \<le> sz" and down0: "down final = 0"
  shows "inv db'"
proof -
  from inv have fin: "finite (dom db)" and cl: "closed db"
    and nodes: "\<And>m k. db m = Some k \<Longrightarrow>
        node_ok m k \<and> total down db m \<le> u_coverage k \<and> u_coverage k + total up db m \<le> u_size k"
    by (auto simp: inv_def)
  from up_nonneg [OF ok] up have sz0: "0 \<le> sz" by simp
  let ?db2 = "db1(nm \<mapsto> final)"
  have old2: "\<exists>k2. ?db2 m = Some k2 \<and> no_children k2 = no_children k" if "db m = Some k" for m k
  proof -
    from that fresh have ne: "m \<noteq> nm" by auto
    from rel [OF ne] that show ?thesis by (auto simp: init_rel_def ne)
  qed
  have new2: "m \<in> set (path nm) \<and> no_children k2 = new_object Item m"
    if "db m = None" "m \<noteq> nm" "?db2 m = Some k2" for m k2
    using rel [OF that(2)] that by (auto simp: init_rel_def)
  have dom2: "dom ?db2 = dom db \<union> set (path nm)"
  proof (intro set_eqI iffI)
    fix m assume "m \<in> dom ?db2"
    then obtain k2 where k2: "?db2 m = Some k2" by blast
    show "m \<in> dom db \<union> set (path nm)"
    proof (cases "m = nm")
      case True
      then show ?thesis using self_in_path [of nm] by simp
    next
      case False
      show ?thesis
      proof (cases "db m")
        case None
        from new2 [OF None False k2] show ?thesis by simp
      next
        case (Some k)
        then show ?thesis by auto
      qed
    qed
  next
    fix m assume "m \<in> dom db \<union> set (path nm)"
    then show "m \<in> dom ?db2"
    proof
      assume "m \<in> dom db"
      then obtain k where "db m = Some k" by auto
      from old2 [OF this] show ?thesis by auto
    next
      assume "m \<in> set (path nm)"
      with pathdom show ?thesis by auto
    qed
  qed
  have dom': "dom db' = dom db \<union> set (path nm)"
    unfolding db' by (simp only: add_size_dom dom2)
  have fin': "finite (dom db')" using fin by (simp add: dom')
  have cl': "closed db'"
    unfolding closed_def
  proof (intro ballI impI)
    fix m assume m: "m \<in> dom db'" and dot: "has_dot m"
    from m dom' have "m \<in> dom db \<or> m \<in> set (path nm)" by auto
    then show "parent_name m \<in> dom db'"
    proof
      assume "m \<in> dom db"
      with cl dot have "parent_name m \<in> dom db" by (auto simp: closed_def)
      then show ?thesis by (simp add: dom')
    next
      assume "m \<in> set (path nm)"
      from path_parent_closed [OF this dot] show ?thesis by (simp add: dom')
    qed
  qed
  have at': "db' m = (if m \<in> set (ancestors nm)
                      then map_option (\<lambda>k. k\<lparr>u_size := u_size k + sz\<rparr>) (?db2 m)
                      else ?db2 m)" for m
    by (simp add: db' add_size_def)
  have nm': "db' nm = Some final" by (simp add: at')
  have tot: "total f db' m = total f db m + (if m \<in> set (ancestors nm) then f final else 0)"
    if f: "\<And>a b. hits a = hits b \<Longrightarrow> kind a = kind b \<Longrightarrow> weight a = weight b \<Longrightarrow>
               at_least a = at_least b \<Longrightarrow> f a = f b"
      and f0: "\<And>a. kind a = Item \<Longrightarrow> hits a = None \<Longrightarrow> f a = 0" for f m
  proof (rule total_register [OF fin cl fresh dom' _ _ nm'])
    fix x k assume "db x = Some k"
    from old2 [OF this] obtain k2 where k2: "?db2 x = Some k2" "no_children k2 = no_children k"
      by blast
    from no_children_fields [OF k2(2)]
    have "f (k2\<lparr>u_size := u_size k2 + sz\<rparr>) = f k" "f k2 = f k" by (auto intro: f)
    with k2(1) show "\<exists>k'. db' x = Some k' \<and> f k' = f k" by (simp add: at')
  next
    fix x k' assume x: "x \<notin> dom db" "x \<noteq> nm" "db' x = Some k'"
    then obtain k2 where k2: "?db2 x = Some k2"
      "k' = k2 \<or> k' = k2\<lparr>u_size := u_size k2 + sz\<rparr>"
      by (auto simp: at' split: if_splits)
    from x(1) have "db x = None" by auto
    from new2 [OF this x(2) k2(1)] have "no_children k2 = new_object Item x" by simp
    from new_item_fields [OF this] k2(2) show "f k' = 0" by (auto intro: f0)
  qed
  have tu: "total up db' m = total up db m + (if m \<in> set (ancestors nm) then up final else 0)"
    for m
  proof (rule tot)
    fix a b :: node
    assume "hits a = hits b" "kind a = kind b" "weight a = weight b" "at_least a = at_least b"
    then show "up a = up b" by (rule up_cong)
  next
    fix a :: node assume "kind a = Item" "hits a = None"
    then show "up a = 0" by (simp add: up_def)
  qed
  have "total down db' m
          = total down db m + (if m \<in> set (ancestors nm) then down final else 0)" for m
  proof (rule tot)
    fix a b :: node
    assume "hits a = hits b" "kind a = kind b" "weight a = weight b" "at_least a = at_least b"
    then show "down a = down b" by (rule down_cong)
  next
    fix a :: node assume "kind a = Item" "hits a = None"
    then show "down a = 0" by (simp add: down_def)
  qed
  then have td: "total down db' m = total down db m" for m
    using down0 by simp
  have "node_ok m k' \<and> total down db' m \<le> u_coverage k' \<and> u_coverage k' + total up db' m \<le> u_size k'"
    if mk: "db' m = Some k'" for m k'
  proof (cases "m = nm")
    case True
    with mk nm' have k': "k' = final" by simp
    from total_unregistered [OF cl fresh] have "total up db nm = 0" "total down db nm = 0"
      by simp_all
    with True k' ok cov0 size sz0 show ?thesis by (simp add: tu td)
  next
    case False
    from mk obtain k2 where k2: "?db2 m = Some k2"
      "k' = (if m \<in> set (ancestors nm) then k2\<lparr>u_size := u_size k2 + sz\<rparr> else k2)"
      by (auto simp: at' split: if_splits)
    show ?thesis
    proof (cases "db m")
      case (Some k)
      from old2 [OF Some] k2(1) have nc: "no_children k2 = no_children k" by simp
      note fk = no_children_fields [OF nc]
      from nodes [OF Some] have okk: "node_ok m k"
        and d: "total down db m \<le> u_coverage k" and u: "u_coverage k + total up db m \<le> u_size k"
        by simp_all
      have "node_ok m k'"
        by (rule node_ok_mono [OF okk]) (use fk k2(2) sz0 in \<open>auto split: if_splits\<close>)
      moreover have "total down db' m \<le> u_coverage k'"
        using d fk k2(2) by (simp add: td)
      moreover have "u_coverage k' + total up db' m \<le> u_size k'"
        using u fk k2(2) up by (simp add: tu)
      ultimately show ?thesis by simp
    next
      case None
      from new2 [OF None False k2(1)]
      have p: "m \<in> set (path nm)" and ni: "no_children k2 = new_object Item m" by simp_all
      from p False have anc: "m \<in> set (ancestors nm)" by (simp add: path_ancestors [of nm])
      note fk = new_item_fields [OF ni]
      from None have "m \<notin> dom db" by auto
      from total_unregistered [OF cl this] have z: "total up db m = 0" "total down db m = 0"
        by simp_all
      from anc k2(2) fk z up show ?thesis
        by (simp add: tu td node_ok_def)
    qed
  qed
  with fin' cl' show ?thesis by (simp add: inv_def)
qed

lemma modify_db:
  "coverage_db (modify nm f s) = (coverage_db s)(nm := map_option f (coverage_db s nm))"
  by (simp add: modify_def)

lemma CoverItem_init_dom:
  "dom (coverage_db s) \<subseteq> dom (coverage_db (fst (CoverItem_init k nm s)))"
proof
  fix m assume m: "m \<in> dom (coverage_db s)"
  obtain s' e where r: "CoverItem_init k nm s = (s', e)" by (cases "CoverItem_init k nm s")
  show "m \<in> dom (coverage_db (fst (CoverItem_init k nm s)))"
  proof (cases "m = nm")
    case True
    with CoverItem_init_props [OF r] r show ?thesis by auto
  next
    case False
    with CoverItem_init_props [OF r] have "init_rel nm m (coverage_db s m) (coverage_db s' m)"
      by simp
    with m r show ?thesis by (auto simp: init_rel_def)
  qed
qed

lemma CoverItem_init_path:
  "closed (coverage_db s) \<Longrightarrow>
   set (path nm) \<subseteq> dom (coverage_db (fst (CoverItem_init k nm s)))"
proof (induction k nm s rule: CoverItem_init.induct)
  case (1 k nm s)
  obtain s' e where r: "CoverItem_init k nm s = (s', e)" by (cases "CoverItem_init k nm s")
  from CoverItem_init_props [OF r] have self: "nm \<in> dom (coverage_db s')" by auto
  show ?case
  proof (cases "has_dot nm")
    case False
    with self r show ?thesis by (simp add: path_ancestors [of nm] ancestors_no_dot)
  next
    case True
    let ?p = "parent_name nm"
    have "set (path ?p) \<subseteq> dom (coverage_db s')"
    proof (cases "?p \<in> dom (coverage_db s)")
      case True
      from closed_path [OF "1.prems" True] CoverItem_init_dom [of s k nm] r show ?thesis
        by auto
    next
      case False
      obtain s1 e1 where r1: "CoverItem_init Item ?p s = (s1, e1)"
        by (cases "CoverItem_init Item ?p s")
      from "1.IH" [OF True False "1.prems"] r1
      have p1: "set (path ?p) \<subseteq> dom (coverage_db s1)" by simp
      from CoverItem_init_props [OF r1] have e1: "e1 = None"
        and par: "?p \<in> dom (coverage_db s1)" by auto
      from par obtain parent where parent: "coverage_db s1 ?p = Some parent" by auto
      from r True False r1 e1 parent
      have "coverage_db s' = (coverage_db (modify ?p (\<lambda>p. p\<lparr>children := children p @ [nm]\<rparr>) s1))
              (nm \<mapsto> new_object k nm)"
        by (subst (asm) CoverItem_init.simps) (auto simp: Let_def)
      then have "dom (coverage_db s1) \<subseteq> dom (coverage_db s')"
        by (auto simp: modify_def split: if_splits)
      with p1 show ?thesis by auto
    qed
    with self True r show ?thesis
      by (simp add: path_ancestors [of nm] ancestors_def)
  qed
qed

lemma dict_set_length: "length (dict_set d k v) \<le> Suc (length d)"
  by (induction d) auto

lemma fold_dict_set_length:
  "length (fold (\<lambda>k d. dict_set d k v) ks acc) \<le> length acc + length ks"
proof (induction ks arbitrary: acc)
  case Nil
  show ?case by simp
next
  case (Cons k ks)
  from Cons [of "dict_set acc k v"] dict_set_length [of acc k v] show ?case by simp
qed

lemma fromkeys_length: "length (fromkeys ks v) \<le> length ks"
  using fold_dict_set_length [of v ks "[]"] by (simp add: fromkeys_def)

lemma add_size_zero [simp]: "add_size nms 0 db = db"
proof
  fix m
  show "add_size nms 0 db m = db m"
    by (cases "db m") (simp_all add: add_size_def)
qed

lemma bins_final:
  assumes dot: "has_dot nm" and wt: "0 \<le> weight n" and k: "kind n = Point \<or> kind n = Cross"
    and h: "hits n = Some h" and sz: "weight n * int (length h) \<le> u_size n"
  shows "node_ok nm n" "up n \<le> u_size n" "down n = 0"
proof -
  from dot wt k h sz show "node_ok nm n" by (auto simp: node_ok_def)
  from unhit_bounds(2) [of n h] wt have "weight n * unhit n h \<le> weight n * int (length h)"
    by (rule mult_left_mono)
  with k h sz show "up n \<le> u_size n" by (auto simp: up_def)
  from k show "down n = 0" by (auto simp: down_def)
qed

lemma inv_constructed:
  assumes inv: "inv (coverage_db s)" and fresh: "nm \<notin> dom (coverage_db s)"
    and init: "CoverItem_init k nm s = (s1, e1)"
    and ok: "node_ok nm final" and cov0: "u_coverage final = 0"
    and up: "up final \<le> u_size final" and down0: "down final = 0"
  shows "inv (add_size (ancestors nm) (u_size final) ((coverage_db s1)(nm \<mapsto> final)))"
proof (rule inv_register [OF inv fresh _ _ refl ok cov0 refl up down0])
  fix m assume "m \<noteq> nm"
  with CoverItem_init_props [OF init]
  show "init_rel nm m (coverage_db s m) (coverage_db s1 m)" by simp
next
  from inv have "closed (coverage_db s)" by (simp add: inv_def)
  from CoverItem_init_path [OF this, of nm k] init
  show "set (path nm) \<subseteq> dom (coverage_db s1)" by simp
qed

lemma CoverItem_init_inv:
  assumes inv: "inv (coverage_db s)" and fresh: "nm \<notin> dom (coverage_db s)"
  shows "inv (coverage_db (fst (CoverItem_init Item nm s)))"
proof -
  obtain s1 e1 where init: "CoverItem_init Item nm s = (s1, e1)"
    by (cases "CoverItem_init Item nm s")
  from CoverItem_init_props [OF init]
  have n: "coverage_db s1 nm = Some (new_object Item nm)" by simp
  have "inv (add_size (ancestors nm) (u_size (new_object Item nm))
               ((coverage_db s1)(nm \<mapsto> new_object Item nm)))"
    by (rule inv_constructed [OF inv fresh init])
       (simp_all add: node_ok_def new_object_def up_def down_def)
  moreover have "(coverage_db s1)(nm \<mapsto> new_object Item nm) = coverage_db s1"
    using n by (simp add: fun_upd_idem)
  ultimately show ?thesis using init by (simp add: new_object_def)
qed

lemma CoverPoint_inv:
  assumes inv: "inv (coverage_db s)" and wt: "0 \<le> wt"
    and run: "CoverPoint nm xf rel bins wt al inj' s = (s', Inr obj)"
  shows "inv (coverage_db s')"
proof (cases "nm \<in> dom (coverage_db s)")
  case True
  with run have "s' = s"
    by (auto simp: CoverPoint_def CoverPoint_init_def split: if_splits)
  with inv show ?thesis by simp
next
  case False
  obtain s1 e1 where init: "CoverItem_init Point nm s = (s1, e1)"
    by (cases "CoverItem_init Point nm s")
  from CoverItem_init_props [OF init]
  have e1: "e1 = None" and n: "coverage_db s1 nm = Some (new_object Point nm)" by simp_all
  from False have none: "coverage_db s nm = None" by auto
  from run none init e1 have dot: "has_dot nm"
    by (cases "has_dot nm") (simp_all add: CoverPoint_def CoverPoint_init_def dom_def)
  define sz where "sz = (if length bins \<noteq> 0 then wt * int (length bins) else wt)"
  define h where "h = (if length bins \<noteq> 0 then fromkeys bins (0::int) else fromkeys [VInt 1] 0)"
  define final where "final = (new_object Point nm)
     \<lparr>transformation := xf, relation := (case rel of None \<Rightarrow> (=) | Some r \<Rightarrow> r),
      weight := wt, at_least := al, injection := inj', u_size := sz, hits := Some h\<rparr>"
  have hl: "wt * int (length h) \<le> sz"
  proof (cases "length bins \<noteq> 0")
    case True
    from fromkeys_length [of bins "0::int"] have "int (length (fromkeys bins (0::int))) \<le> int (length bins)"
      by simp
    from mult_left_mono [OF this wt] True show ?thesis by (simp add: h_def sz_def)
  next
    case False
    then show ?thesis by (simp add: h_def sz_def fromkeys_def)
  qed
  have f: "kind final = Point" "weight final = wt" "hits final = Some h" "u_size final = sz"
    "u_coverage final = 0" "new_hits final = []"
    by (simp_all add: final_def new_object_def)
  have b: "node_ok nm final" "up final \<le> u_size final" "down final = 0"
    by (rule bins_final [OF dot, of final h]; simp add: f wt hl)+
  have i: "inv (add_size (ancestors nm) (u_size final) ((coverage_db s1)(nm \<mapsto> final)))"
    by (rule inv_constructed [OF inv False init b(1) f(5) b(2,3)])
  from run none init e1 dot
  have s': "s' = modify nm (\<lambda>self. self\<lparr>new_hits := []\<rparr>)
                   (update_size (parent_name nm) sz
                      (modify nm (\<lambda>self. self
                           \<lparr>transformation := xf,
                            relation := (case rel of None \<Rightarrow> (=) | Some r \<Rightarrow> r),
                            weight := wt, at_least := al, injection := inj',
                            u_size := sz, hits := Some h\<rparr>) s1))"
    by (auto simp: CoverPoint_def CoverPoint_init_def Let_def sz_def h_def dom_def)
  have "coverage_db s' = add_size (ancestors nm) sz ((coverage_db s1)(nm \<mapsto> final))"
    unfolding s' using dot n f(6)
    by (auto simp: modify_db update_size_exact add_size_def ancestors_def final_def
        not_in_path_parent fun_eq_iff)
  with i f(4) show ?thesis by simp
qed

lemma CoverCross_inv:
  assumes inv: "inv (coverage_db s)" and wt: "0 \<le> wt"
    and run: "CoverCross nm its ign_bins wt al s = (s', Inr obj)"
  shows "inv (coverage_db s')"
proof (cases "nm \<in> dom (coverage_db s)")
  case True
  with run have "s' = s"
    by (auto simp: CoverCross_def CoverCross_init_def split: if_splits)
  with inv show ?thesis by simp
next
  case False
  then have none: "coverage_db s nm = None" by auto
  obtain s1 e1 where init: "CoverItem_init Cross nm s = (s1, e1)"
    by (cases "CoverItem_init Cross nm s")
  from CoverItem_init_props [OF init]
  have e1: "e1 = None" and n: "coverage_db s1 nm = Some (new_object Cross nm)" by simp_all
  from run none have r: "CoverCross_init nm its ign_bins wt al s = (s', None)"
    by (cases "CoverCross_init nm its ign_bins wt al s")
       (auto simp: CoverCross_def split: option.splits)
  from r none init e1 have dot: "has_dot nm"
    by (cases "has_dot nm") (simp_all add: CoverCross_init_def dom_def)
  let ?s2 = "modify nm (\<lambda>self. self\<lparr>weight := wt, at_least := al, items := its\<rparr>) s1"
  from r none init e1 dot obtain bins_lists where bl: "bins_lists_of its ?s2 = Inr bins_lists"
    by (cases "bins_lists_of its ?s2") (auto simp: CoverCross_init_def Let_def dom_def)
  let ?h0 = "fromkeys (map VTuple (itertools_product bins_lists)) (0::int)"
  let ?s3 = "modify nm (\<lambda>self. self\<lparr>hits := Some ?h0\<rparr>) ?s2"
  obtain h1 e2 where ri: "remove_ignored ign_bins (map fst ?h0) ?h0 = (h1, e2)"
    by (cases "remove_ignored ign_bins (map fst ?h0) ?h0")
  from r none init e1 dot bl ri have e2: "e2 = None"
    by (cases e2) (auto simp: CoverCross_init_def Let_def dom_def)
  define sz where "sz = wt * int (length h1)"
  define final where "final = (new_object Cross nm)
     \<lparr>weight := wt, at_least := al, items := its, hits := Some h1, u_size := sz\<rparr>"
  have f: "kind final = Cross" "weight final = wt" "hits final = Some h1" "u_size final = sz"
    "u_coverage final = 0"
    by (simp_all add: final_def new_object_def)
  have b: "node_ok nm final" "up final \<le> u_size final" "down final = 0"
    by (rule bins_final [OF dot, of final h1]; simp add: f wt sz_def)+
  have i: "inv (add_size (ancestors nm) (u_size final) ((coverage_db s1)(nm \<mapsto> final)))"
    by (rule inv_constructed [OF inv False init b(1) f(5) b(2,3)])
  from r none init e1 dot bl ri e2
  have s': "s' = update_size (parent_name nm) sz
                   (modify nm (\<lambda>self. self\<lparr>hits := Some h1, u_size := sz\<rparr>) ?s3)"
    by (auto simp: CoverCross_init_def Let_def sz_def dom_def)
  have "coverage_db s' = add_size (ancestors nm) sz ((coverage_db s1)(nm \<mapsto> final))"
    unfolding s' using dot n
    by (auto simp: modify_db update_size_exact add_size_def ancestors_def final_def
        not_in_path_parent fun_eq_iff)
  with i f(4) show ?thesis by simp
qed

lemma CoverCheck_inv:
  assumes inv: "inv (coverage_db s)" and wt: "0 \<le> wt" and al: "0 \<le> al"
    and run: "CoverCheck nm ff fp wt al s = (s', Inr obj)"
  shows "inv (coverage_db s')"
proof (cases "nm \<in> dom (coverage_db s)")
  case True
  with run have "s' = s"
    by (auto simp: CoverCheck_def CoverCheck_init_def split: if_splits)
  with inv show ?thesis by simp
next
  case False
  then have none: "coverage_db s nm = None" by auto
  obtain s1 e1 where init: "CoverItem_init Check nm s = (s1, e1)"
    by (cases "CoverItem_init Check nm s")
  from CoverItem_init_props [OF init]
  have e1: "e1 = None" and n: "coverage_db s1 nm = Some (new_object Check nm)" by simp_all
  from run none init e1 have dot: "has_dot nm"
    by (cases "has_dot nm") (simp_all add: CoverCheck_def CoverCheck_init_def dom_def)
  define final where "final = (new_object Check nm)
     \<lparr>weight := wt, at_least := al, f_pass := fp, f_fail := ff, u_size := wt,
      hits := Some (fromkeys [VStr ''PASS'', VStr ''FAIL''] 0)\<rparr>"
  have f: "u_size final = wt" "u_coverage final = 0"
    by (simp_all add: final_def new_object_def)
  have b: "node_ok nm final" "up final \<le> u_size final" "down final = 0"
    using dot wt al
    by (simp_all add: final_def new_object_def node_ok_def up_def down_def check_up_def
        coverage_def check_coverage_def fromkeys_def)
  have i: "inv (add_size (ancestors nm) (u_size final) ((coverage_db s1)(nm \<mapsto> final)))"
    by (rule inv_constructed [OF inv False init b(1) f(2) b(2,3)])
  from run none init e1 dot
  have s': "s' = update_size (parent_name nm) wt
                   (modify nm (\<lambda>self. self
                           \<lparr>weight := wt, at_least := al, f_pass := fp, f_fail := ff,
                            u_size := wt,
                            hits := Some (fromkeys [VStr ''PASS'', VStr ''FAIL''] 0)\<rparr>) s1)"
    by (auto simp: CoverCheck_def CoverCheck_init_def Let_def dom_def)
  have "coverage_db s' = add_size (ancestors nm) wt ((coverage_db s1)(nm \<mapsto> final))"
    unfolding s' using dot n
    by (auto simp: modify_db update_size_exact add_size_def ancestors_def final_def
        not_in_path_parent fun_eq_iff)
  with i f(1) show ?thesis by simp
qed

lemma inv_empty: "inv (coverage_db empty_state)"
  by (simp add: inv_def empty_state_def closed_def)

lemma reachable_inv: "reachable s \<Longrightarrow> inv (coverage_db s)"
proof (induction rule: reachable.induct)
  case empty
  show ?case by (rule inv_empty)
next
  case (item s nm)
  then show ?case by (simp add: CoverItem_init_inv)
next
  case (point s wt nm xf rel bins al inj' s' obj)
  then show ?case by (blast intro: CoverPoint_inv)
next
  case (cross s wt nm its ign_bins al s' obj)
  then show ?case by (blast intro: CoverCross_inv)
next
  case (check s wt al nm ff fp s' obj)
  then show ?case by (blast intro: CoverCheck_inv)
next
  case (threshold_callback s nm cb threshold)
  then show ?case by (simp add: add_threshold_callback_inv)
next
  case (bins_callback s nm cb bins)
  then show ?case by (simp add: add_bins_callback_inv)
next
  case (sampled s nm cb_args)
  then show ?case by (simp add: sample_inv)
qed

lemma inv_bounds:
  assumes inv: "inv db" and n: "db nm = Some n"
  shows "\<exists>c. coverage n = Inr c \<and> 0 \<le> c \<and> c \<le> size_p n"
proof -
  from inv n have ok: "node_ok nm n" and d: "total down db nm \<le> u_coverage n"
    and u: "u_coverage n + total up db nm \<le> u_size n"
    and all: "\<And>x k. db x = Some k \<Longrightarrow> node_ok x k"
    by (auto simp: inv_def)
  show ?thesis
  proof (cases "kind n")
    case Item
    have "0 \<le> total down db nm" by (rule total_nonneg) (auto dest: all down_nonneg)
    moreover have "0 \<le> total up db nm" by (rule total_nonneg) (auto dest: all up_nonneg)
    ultimately show ?thesis using Item d u by (simp add: coverage_def size_p_def)
  next
    case Point
    with ok obtain h where h: "hits n = Some h" "0 \<le> weight n"
      "weight n * int (length h) \<le> u_size n" by (auto simp: node_ok_def)
    from mult_left_mono [OF unhit_bounds(2) [of n h] h(2)] mult_nonneg_nonneg [OF h(2) unhit_bounds(1) [of n h]]
    show ?thesis using Point h
      by (simp add: coverage_def size_p_def bins_coverage_eq unhit_def)
  next
    case Cross
    with ok obtain h where h: "hits n = Some h" "0 \<le> weight n"
      "weight n * int (length h) \<le> u_size n" by (auto simp: node_ok_def)
    from mult_left_mono [OF unhit_bounds(2) [of n h] h(2)] mult_nonneg_nonneg [OF h(2) unhit_bounds(1) [of n h]]
    show ?thesis using Cross h
      by (simp add: coverage_def size_p_def bins_coverage_eq unhit_def)
  next
    case Check
    with ok show ?thesis
      by (auto simp: node_ok_def coverage_def check_coverage_def size_p_def)
  qed
qed

section \<open>The claims\<close>

text \<open>
  Claim C1. A sample of a \<^verbatim>\<open>CoverCheck\<close> for which the fail function and the pass
  function both return false is to leave both hit counts and the coverage as they
  are. The code counts it as a FAIL: at the sample 7 of the documented check (7 is
  not 0 and not below 5) the FAIL count goes from 0 to 1, and after two passing
  samples the same sample takes the coverage of the check from its weight to 0. The
  parent is not told (its coverage stays 1) and no callback is called.
\<close>

theorem C1_indeterminate_sample_counts_as_FAIL:
  "\<not> x_eq_0 [VInt 7] \<and> \<not> x_lt_5 [VInt 7] \<and>
   detailed_coverage_at (check_example 1 1) ''top.check'' = Inr [(VStr ''PASS'', 0), (VStr ''FAIL'', 0)] \<and>
   detailed_coverage_at (fst (sample ''top.check'' [VInt 7] (check_example 1 1))) ''top.check''
     = Inr [(VStr ''PASS'', 0), (VStr ''FAIL'', 1)] \<and>
   coverage_at (samples [(''top.check'', [VInt 3]), (''top.check'', [VInt 3])] (check_example 1 1)) ''top.check'' = Inr 1 \<and>
   coverage_at (samples [(''top.check'', [VInt 3]), (''top.check'', [VInt 3]), (''top.check'', [VInt 7])] (check_example 1 1)) ''top.check'' = Inr 0 \<and>
   coverage_at (samples [(''top.check'', [VInt 3]), (''top.check'', [VInt 3]), (''top.check'', [VInt 7])] (check_example 1 1)) ''top'' = Inr 1 \<and>
   fired (samples [(''top.check'', [VInt 3]), (''top.check'', [VInt 3]), (''top.check'', [VInt 7])] (check_example 1 1)) = []"
  by (auto simp: check_example_eq eval_defs top_check_name x_eq_0_def x_lt_5_def)

text \<open>
  Claim C2. The documented check with \<^verbatim>\<open>at_least = 1\<close> and any weight: after the
  samples 3, 3, 3 its coverage is the weight; after the further sample 0 and then
  any sequence of sampling events (of any object, with any arguments) its coverage
  is 0, while its PASS count is at least 1.
\<close>

theorem C2_check_latch:
  "coverage_at
     (samples [(''top.check'', [VInt 3]), (''top.check'', [VInt 3]), (''top.check'', [VInt 3])]
        (check_example wt 1)) ''top.check'' = Inr wt \<and>
   coverage_at
     (samples ([(''top.check'', [VInt 3]), (''top.check'', [VInt 3]), (''top.check'', [VInt 3]),
                (''top.check'', [VInt 0])] @ evs)
        (check_example wt 1)) ''top.check'' = Inr 0 \<and>
   (\<exists>npass nfail.
      detailed_coverage_at
        (samples ([(''top.check'', [VInt 3]), (''top.check'', [VInt 3]),
                   (''top.check'', [VInt 3]), (''top.check'', [VInt 0])] @ evs)
           (check_example wt 1)) ''top.check''
        = Inr [(VStr ''PASS'', npass), (VStr ''FAIL'', nfail)] \<and>
      1 \<le> npass \<and> 0 < nfail)"
proof -
  define s4 where "s4 = samples [(''top.check'', [VInt 3]), (''top.check'', [VInt 3]),
                      (''top.check'', [VInt 3]), (''top.check'', [VInt 0])] (check_example wt 1)"
  have three: "coverage_at
     (samples [(''top.check'', [VInt 3]), (''top.check'', [VInt 3]), (''top.check'', [VInt 3])]
        (check_example wt 1)) ''top.check'' = Inr wt"
    by (simp add: check_example_registry sample_check_pass)
       (simp add: check_registry_def at_defs coverage_def check_coverage_def new_object_def)
  have four: "s4 = check_registry wt 1 3 1 0"
    by (simp add: s4_def check_example_registry sample_check_pass sample_check_fail
        check_registry_coverage_def)
  obtain n where n: "coverage_db s4 ''top.check'' = Some n" "kind n = Check"
    "hits n = Some [(VStr ''PASS'', 3), (VStr ''FAIL'', 1)]"
    unfolding four by (simp add: check_registry_def new_object_def)
  from samples_evolves [of s4 evs] have "rel_option evolves (coverage_db s4 ''top.check'')
      (coverage_db (samples evs s4) ''top.check'')"
    unfolding db_evolves_def by blast
  with n(1) obtain n' where n': "coverage_db (samples evs s4) ''top.check'' = Some n'"
    "evolves n n'"
    by (auto simp: option_rel_Some1)
  from evolves_check [OF n'(2) n(3)] obtain p' f' where
    h': "hits n' = Some [(VStr ''PASS'', p'), (VStr ''FAIL'', f')]" "3 \<le> p'" "1 \<le> f'"
    by blast
  from evolves_fields(1) [OF n'(2)] n(2) have k: "kind n' = Check" by simp
  from n' h' k have c: "coverage_at (samples evs s4) ''top.check'' = Inr 0"
    by (simp add: coverage_at_def coverage_def check_coverage_def)
  from n' h' k have d: "detailed_coverage_at (samples evs s4) ''top.check''
      = Inr [(VStr ''PASS'', p'), (VStr ''FAIL'', f')]"
    by (simp add: detailed_coverage_at_def detailed_coverage_def)
  have a: "samples ([(''top.check'', [VInt 3]), (''top.check'', [VInt 3]),
                     (''top.check'', [VInt 3]), (''top.check'', [VInt 0])] @ evs)
             (check_example wt 1) = samples evs s4"
    unfolding s4_def by (rule samples_append)
  from three c d h' show ?thesis
    unfolding a by auto
qed

text \<open>
  Claim C3. With no FAIL, a PASS count equal to \<^verbatim>\<open>at_least\<close> is to give the coverage
  \<^verbatim>\<open>weight\<close>. The code compares with \<^verbatim>\<open>>\<close>: after one passing sample of the
  documented check with \<^verbatim>\<open>at_least = 1\<close> the counts are PASS 1 and FAIL 0 and the
  coverage is 0, and it is the weight only after the second passing sample.
\<close>

theorem C3_pass_count_equal_at_least:
  "detailed_coverage_at (samples [(''top.check'', [VInt 3])] (check_example 1 1)) ''top.check''
     = Inr [(VStr ''PASS'', 1), (VStr ''FAIL'', 0)] \<and>
   coverage_at (samples [(''top.check'', [VInt 3])] (check_example 1 1)) ''top.check'' = Inr 0 \<and>
   coverage_at (samples [(''top.check'', [VInt 3]), (''top.check'', [VInt 3])] (check_example 1 1)) ''top.check'' = Inr 1"
  by (simp add: check_example_eq eval_defs top_check_name x_eq_0_def x_lt_5_def)

text \<open>
  Claim C4. For every registered node, \<^verbatim>\<open>0 \<le> coverage \<le> size\<close> is to hold after any
  sequence of sampling events. As stated the claim fails, since neither \<^verbatim>\<open>weight\<close>
  nor \<^verbatim>\<open>at_least\<close> is validated: a point of weight -1 with one bin has, as has its
  parent, the coverage 0 and the size -1 before any sample; and a check with
  \<^verbatim>\<open>at_least = -1\<close> counts as covered from its construction, which is not reported
  to the parent, so that the failing sample 0 takes the weight 1 off the parent's
  coverage 0.
\<close>

theorem C4_counterexample:
  "coverage_at negative_weight ''top.p'' = Inr 0 \<and>
   size_at negative_weight ''top.p'' = Inr (- 1) \<and>
   coverage_at negative_weight ''top'' = Inr 0 \<and>
   size_at negative_weight ''top'' = Inr (- 1) \<and>
   coverage_at negative_at_least ''top'' = Inr (- 1) \<and>
   size_at negative_at_least ''top'' = Inr 1"
  by (auto simp: negative_weight_def negative_at_least_def init_defs top_p_name
      top_check_name call_defs at_defs x_eq_0_def x_lt_5_def)

text \<open>
  Claim C4, amended. In every registry reached from the empty one by constructions
  that return, with weights that are not negative and, for a check, an \<^verbatim>\<open>at_least\<close>
  that is not negative, by registrations of callbacks and by sampling events,
  whether they return or raise, the coverage of every registered node can be read
  and \<^verbatim>\<open>0 \<le> coverage \<le> size\<close> holds.
\<close>

theorem C4_coverage_within_size:
  assumes "reachable s" and "coverage_db s nm = Some n"
  shows "\<exists>c. coverage n = Inr c \<and> 0 \<le> c \<and> c \<le> size_p n"
  using inv_bounds [OF reachable_inv [OF assms(1)] assms(2)] .

theorem C4_coverage_within_size_witness:
  "reachable (fst (sample ''top.p'' [VInt 1] point_example)) \<and>
   map_option u_coverage (coverage_db (fst (sample ''top.p'' [VInt 1] point_example)) ''top'')
     = Some 1 \<and>
   (\<exists>n c. coverage_db (fst (sample ''top.p'' [VInt 1] point_example)) ''top'' = Some n \<and>
          coverage n = Inr c \<and> 0 \<le> c \<and> c \<le> size_p n)"
proof -
  let ?s = "fst (sample ''top.p'' [VInt 1] point_example)"
  have c: "CoverPoint ''top.p'' None None [VInt 1, VInt 2, VInt 3, VInt 4] 1 1 False empty_state
      = (fst (CoverPoint ''top.p'' None None [VInt 1, VInt 2, VInt 3, VInt 4] 1 1 False
                empty_state), Inr ''top.p'')"
    by (simp add: init_defs top_p_name top_check_name(3))
  have "reachable (fst (CoverPoint ''top.p'' None None [VInt 1, VInt 2, VInt 3, VInt 4] 1 1
                          False empty_state))"
    by (rule reachable.point [OF reachable.empty _ c]) simp
  then have "reachable point_example"
    unfolding point_example_def by (intro reachable.threshold_callback)
  then have r: "reachable ?s" by (rule reachable.sampled)
  have s: "?s = point_registry [1, 0, 0, 0] [VInt 1] 1 []"
    by (simp add: point_example_eq sample_point_1)
  have n: "coverage_db ?s ''top'' = Some ((new_object Item ''top'')
            \<lparr>u_size := 4, u_coverage := 1, children := [''top.p''],
             threshold_callbacks := [(50, 7)]\<rparr>)"
    unfolding s by (simp add: point_registry_def)
  from C4_coverage_within_size [OF r n] r n show ?thesis by simp
qed

text \<open>
  Claim C5. Reading \<^verbatim>\<open>detailed_coverage\<close> of a plain \<^verbatim>\<open>CoverItem\<close> is to return a
  dictionary. In the registry of the documented check, \<^verbatim>\<open>top\<close> is a plain
  \<^verbatim>\<open>CoverItem\<close> with the child \<^verbatim>\<open>top.check\<close>, and reading its \<^verbatim>\<open>detailed_coverage\<close>
  raises \<^verbatim>\<open>AttributeError\<close>.
\<close>

theorem C5_detailed_coverage_raises:
  "map_option kind (coverage_db (check_example 1 1) ''top'') = Some Item \<and>
   detailed_coverage_at (check_example 1 1) ''top'' = Inl AttributeError"
  by (simp add: check_example_eq eval_defs top_check_name x_eq_0_def x_lt_5_def)

text \<open>
  Claim C6. An object of size 4 with a threshold callback at 50: when a delta is
  applied that takes its coverage from 1 to 2, the callback is called exactly once
  (the number of its calls grows by one), and when a later delta takes the coverage
  from 2 to 3 it is not called. A delta is applied by \<^verbatim>\<open>_update_coverage\<close> (lines 100
  to 104) or by the sampling of the object itself (lines 384 to 387 and their
  copies), and the call is assumed to return. The witness is the point with four
  bins and its parent, sampled with 1, 2 and 3.
\<close>

theorem C6_threshold_callback_fires_once:
  assumes "size_at s nm = Inr 4" and "coverage_at s nm = Inr 1"
    and "delta_applied nm s s1" and "coverage_at s1 nm = Inr 2"
    and "delta_applied nm s1 s2" and "coverage_at s2 nm = Inr 3"
    and "coverage_db s nm = Some self"
    and "distinct (map fst (threshold_callbacks self))"
    and "map_of (threshold_callbacks self) 50 = Some cb"
  shows "count_list (fired s1) (ThresholdFired nm 50 cb)
           = count_list (fired s) (ThresholdFired nm 50 cb) + 1 \<and>
         count_list (fired s2) (ThresholdFired nm 50 cb)
           = count_list (fired s1) (ThresholdFired nm 50 cb)"
proof -
  from delta_shape [OF assms(3) assms(2) assms(4) _ _ _ assms(1)] assms(7)
  obtain self1 evs1 where
    one: "coverage_db s1 nm = Some self1" "size_p self1 = 4"
      "threshold_callbacks self1 = threshold_callbacks self"
      "fired s1 = fired s @ evs1 @ threshold_calls nm 4 1 2 (threshold_callbacks self)"
      "not_threshold_of nm evs1"
    by auto
  from one(1,2) have sz1: "size_at s1 nm = Inr 4" by (simp add: size_at_def)
  from delta_shape [OF assms(5) assms(4) assms(6) _ _ _ sz1] one(1,3)
  obtain evs2 where
    two: "fired s2 = fired s1 @ evs2 @ threshold_calls nm 4 2 3 (threshold_callbacks self)"
      "not_threshold_of nm evs2"
    by auto
  have a: "count_list (threshold_calls nm 4 1 2 (threshold_callbacks self))
             (ThresholdFired nm 50 cb) = 1"
    by (simp add: count_threshold_calls [OF assms(8,9)])
  have b: "count_list (threshold_calls nm 4 2 3 (threshold_callbacks self))
             (ThresholdFired nm 50 cb) = 0"
    by (simp add: count_threshold_calls [OF assms(8,9)])
  from one(4,5) two a b show ?thesis
    by (simp add: count_not_threshold)
qed

theorem C6_threshold_callback_fires_once_witness:
  "size_at (point_registry [1, 0, 0, 0] [VInt 1] 1 []) ''top.p'' = Inr 4 \<and>
   coverage_at (point_registry [1, 0, 0, 0] [VInt 1] 1 []) ''top.p'' = Inr 1 \<and>
   sample ''top.p'' [VInt 1] point_example
     = (point_registry [1, 0, 0, 0] [VInt 1] 1 [], None) \<and>
   sample ''top.p'' [VInt 2] (point_registry [1, 0, 0, 0] [VInt 1] 1 [])
     = (point_registry [1, 1, 0, 0] [VInt 2] 2
          [ThresholdFired ''top'' 50 7, ThresholdFired ''top.p'' 50 8], None) \<and>
   sample ''top.p'' [VInt 3] (point_registry [1, 1, 0, 0] [VInt 2] 2
          [ThresholdFired ''top'' 50 7, ThresholdFired ''top.p'' 50 8])
     = (point_registry [1, 1, 1, 0] [VInt 3] 3
          [ThresholdFired ''top'' 50 7, ThresholdFired ''top.p'' 50 8], None) \<and>
   count_list (fired (point_registry [1, 1, 0, 0] [VInt 2] 2
          [ThresholdFired ''top'' 50 7, ThresholdFired ''top.p'' 50 8]))
      (ThresholdFired ''top.p'' 50 8) = 1 \<and>
   count_list (fired (point_registry [1, 1, 1, 0] [VInt 3] 3
          [ThresholdFired ''top'' 50 7, ThresholdFired ''top.p'' 50 8]))
      (ThresholdFired ''top.p'' 50 8) = 1 \<and>
   update_coverage ''top'' 1 (point_registry [1, 1, 0, 0] [VInt 2] 1 [])
     = (point_registry [1, 1, 0, 0] [VInt 2] 2 [ThresholdFired ''top'' 50 7], None) \<and>
   update_coverage ''top'' 1 (point_registry [1, 1, 0, 0] [VInt 2] 2 [ThresholdFired ''top'' 50 7])
     = (point_registry [1, 1, 0, 0] [VInt 2] 3 [ThresholdFired ''top'' 50 7], None) \<and>
   count_list (fired (point_registry [1, 1, 0, 0] [VInt 2] 3 [ThresholdFired ''top'' 50 7]))
      (ThresholdFired ''top'' 50 7) = 1"
proof -
  let ?ev = "[ThresholdFired ''top'' 50 7, ThresholdFired ''top.p'' 50 8]"
  let ?s = "point_registry [1, 0, 0, 0] [VInt 1] 1 []"
  let ?s1 = "point_registry [1, 1, 0, 0] [VInt 2] 2 ?ev"
  let ?s2 = "point_registry [1, 1, 1, 0] [VInt 3] 3 ?ev"
  have d1: "delta_applied ''top.p'' ?s ?s1"
    unfolding delta_applied_def using sample_point_2 by blast
  have d2: "delta_applied ''top.p'' ?s1 ?s2"
    unfolding delta_applied_def using sample_point_3 by blast
  obtain self where self: "coverage_db ?s ''top.p'' = Some self"
    "threshold_callbacks self = [(50, 8)]"
    using point_registry_reads(6) [of "[1, 0, 0, 0]" "[VInt 1]" 1 "[]"] by auto
  have p: "count_list (fired ?s1) (ThresholdFired ''top.p'' 50 8)
             = count_list (fired ?s) (ThresholdFired ''top.p'' 50 8) + 1 \<and>
           count_list (fired ?s2) (ThresholdFired ''top.p'' 50 8)
             = count_list (fired ?s1) (ThresholdFired ''top.p'' 50 8)"
    by (rule C6_threshold_callback_fires_once [OF _ _ d1 _ d2 _ self(1)])
       (simp_all add: point_registry_reads self(2))
  let ?t = "point_registry [1, 1, 0, 0] [VInt 2] 1 []"
  let ?t1 = "point_registry [1, 1, 0, 0] [VInt 2] 2 [ThresholdFired ''top'' 50 7]"
  let ?t2 = "point_registry [1, 1, 0, 0] [VInt 2] 3 [ThresholdFired ''top'' 50 7]"
  have e1: "delta_applied ''top'' ?t ?t1"
    unfolding delta_applied_def using update_coverage_top(1) by blast
  have e2: "delta_applied ''top'' ?t1 ?t2"
    unfolding delta_applied_def using update_coverage_top(2) by blast
  obtain top where top: "coverage_db ?t ''top'' = Some top"
    "threshold_callbacks top = [(50, 7)]"
    using point_registry_reads(7) [of "[1, 1, 0, 0]" "[VInt 2]" 1 "[]"] by auto
  have q: "count_list (fired ?t1) (ThresholdFired ''top'' 50 7)
             = count_list (fired ?t) (ThresholdFired ''top'' 50 7) + 1 \<and>
           count_list (fired ?t2) (ThresholdFired ''top'' 50 7)
             = count_list (fired ?t1) (ThresholdFired ''top'' 50 7)"
    by (rule C6_threshold_callback_fires_once [OF _ _ e1 _ e2 _ top(1)])
       (simp_all add: point_registry_reads top(2))
  from p q show ?thesis
    by (simp add: point_registry_reads point_example_eq sample_point_1 sample_point_2
        sample_point_3 update_coverage_top)
qed

text \<open>
  Claim C7. Constructing a \<^verbatim>\<open>CoverPoint\<close>, \<^verbatim>\<open>CoverCross\<close> or \<^verbatim>\<open>CoverCheck\<close> under
  a name that is registered returns the registered object and leaves the whole
  state as it is, whatever the other arguments: no attribute of the object, no size
  of an ancestor and no other entry of the registry changes.
\<close>

theorem C7_second_construction:
  assumes "nm \<in> dom (coverage_db s)"
  shows "CoverPoint nm xf rel bins wt al inj' s = (s, Inr nm) \<and>
         CoverCross nm its ign_bins wt al s = (s, Inr nm) \<and>
         CoverCheck nm ff fp wt al s = (s, Inr nm)"
  using assms
  by (auto simp: CoverPoint_def CoverPoint_init_def CoverCross_def CoverCross_init_def
      CoverCheck_def CoverCheck_init_def)

theorem C7_second_construction_witness:
  "''top.check'' \<in> dom (coverage_db (check_example 1 1)) \<and>
   CoverPoint ''top.check'' None None [VInt 1, VInt 2] 5 3 True (check_example 1 1)
     = (check_example 1 1, Inr ''top.check'') \<and>
   CoverCross ''top.check'' [''top.check''] [[VNone]] 5 3 (check_example 1 1)
     = (check_example 1 1, Inr ''top.check'') \<and>
   CoverCheck ''top.check'' x_lt_5 None 5 3 (check_example 1 1)
     = (check_example 1 1, Inr ''top.check'')"
proof -
  have d: "''top.check'' \<in> dom (coverage_db (check_example 1 1))"
    by (simp add: check_example_eq)
  from d C7_second_construction [OF d] show ?thesis by simp
qed

text \<open>
  Claim C8. Two points with the bins 1 and 2 and a cross of them with
  \<^verbatim>\<open>ign_bins = [(1, 1)]\<close>, of any weight and \<^verbatim>\<open>at_least\<close>: the cross has the three
  cross-bins (1, 2), (2, 1) and (2, 2), each with no hit, and the size three times
  its weight. A call with the arguments 2 and 2 that samples the two points (each
  then has the last-hit list [2]) leaves the cross-bins alone, and the sampling of
  the cross that follows takes the hit count of (2, 2) from 0 to 1 and no other.
\<close>

theorem C8_cross_example:
  "detailed_coverage_at (cross_example wt al) ''top.cross''
     = Inr [(VTuple [VInt 1, VInt 2], 0), (VTuple [VInt 2, VInt 1], 0),
            (VTuple [VInt 2, VInt 2], 0)] \<and>
   size_at (cross_example wt al) ''top.cross'' = Inr (3 * wt) \<and>
   map_option new_hits
     (coverage_db (samples [(''top.a'', [VInt 2, VInt 2]), (''top.b'', [VInt 2, VInt 2])]
        (cross_example wt al)) ''top.a'') = Some [VInt 2] \<and>
   map_option new_hits
     (coverage_db (samples [(''top.a'', [VInt 2, VInt 2]), (''top.b'', [VInt 2, VInt 2])]
        (cross_example wt al)) ''top.b'') = Some [VInt 2] \<and>
   detailed_coverage_at
     (samples [(''top.a'', [VInt 2, VInt 2]), (''top.b'', [VInt 2, VInt 2])]
        (cross_example wt al)) ''top.cross''
     = Inr [(VTuple [VInt 1, VInt 2], 0), (VTuple [VInt 2, VInt 1], 0),
            (VTuple [VInt 2, VInt 2], 0)] \<and>
   detailed_coverage_at
     (samples [(''top.a'', [VInt 2, VInt 2]), (''top.b'', [VInt 2, VInt 2]),
               (''top.cross'', [VInt 2, VInt 2])] (cross_example wt al)) ''top.cross''
     = Inr [(VTuple [VInt 1, VInt 2], 0), (VTuple [VInt 2, VInt 1], 0),
            (VTuple [VInt 2, VInt 2], 1)]"
  by (simp add: cross_example_def two_points_def init_defs call_defs at_defs cross_names
      top_check_name(3) first_arg_def second_arg_def)

text \<open>
  Claim C9. When the construction of a \<^verbatim>\<open>CoverPoint\<close>, \<^verbatim>\<open>CoverCross\<close> or
  \<^verbatim>\<open>CoverCheck\<close> raises the missing-parent exception, the name was not registered
  before, and it is registered afterwards: the registry has gained the object as
  \<^verbatim>\<open>CoverItem.__init__\<close> left it, and nothing else has changed.
\<close>

theorem C9_registry_modified:
  "(snd (CoverPoint nm xf rel bins wt al inj' s) = Inl NoParent \<longrightarrow>
      nm \<notin> dom (coverage_db s) \<and>
      coverage_db (fst (CoverPoint nm xf rel bins wt al inj' s))
        = (coverage_db s)(nm \<mapsto> new_object Point nm)) \<and>
   (snd (CoverCross nm its ign_bins wt al s) = Inl NoParent \<longrightarrow>
      nm \<notin> dom (coverage_db s) \<and>
      coverage_db (fst (CoverCross nm its ign_bins wt al s))
        = (coverage_db s)(nm \<mapsto> new_object Cross nm)) \<and>
   (snd (CoverCheck nm ff fp wt al s) = Inl NoParent \<longrightarrow>
      nm \<notin> dom (coverage_db s) \<and>
      coverage_db (fst (CoverCheck nm ff fp wt al s))
        = (coverage_db s)(nm \<mapsto> new_object Check nm))"
proof (intro conjI impI)
  assume a: "snd (CoverPoint nm xf rel bins wt al inj' s) = Inl NoParent"
  from CoverPoint_NoParent [OF a] show "nm \<notin> dom (coverage_db s)" by simp
  from CoverPoint_NoParent [OF a]
  show "coverage_db (fst (CoverPoint nm xf rel bins wt al inj' s))
        = (coverage_db s)(nm \<mapsto> new_object Point nm)"
    by (auto simp: CoverPoint_def CoverPoint_init_def CoverItem_init_no_dot)
next
  assume a: "snd (CoverCross nm its ign_bins wt al s) = Inl NoParent"
  from CoverCross_NoParent [OF a] show "nm \<notin> dom (coverage_db s)" by simp
  from CoverCross_NoParent [OF a]
  show "coverage_db (fst (CoverCross nm its ign_bins wt al s))
        = (coverage_db s)(nm \<mapsto> new_object Cross nm)"
    by (auto simp: CoverCross_def CoverCross_init_def CoverItem_init_no_dot)
next
  assume a: "snd (CoverCheck nm ff fp wt al s) = Inl NoParent"
  from CoverCheck_NoParent [OF a] show "nm \<notin> dom (coverage_db s)" by simp
  from CoverCheck_NoParent [OF a]
  show "coverage_db (fst (CoverCheck nm ff fp wt al s))
        = (coverage_db s)(nm \<mapsto> new_object Check nm)"
    by (auto simp: CoverCheck_def CoverCheck_init_def CoverItem_init_no_dot)
qed

theorem C9_registry_modified_witness:
  "snd (CoverPoint ''x'' None None [VInt 1] 1 1 False empty_state) = Inl NoParent \<and>
   snd (CoverCross ''x'' [] [] 1 1 empty_state) = Inl NoParent \<and>
   snd (CoverCheck ''x'' x_eq_0 None 1 1 empty_state) = Inl NoParent \<and>
   ''x'' \<notin> dom (coverage_db empty_state) \<and>
   coverage_db (fst (CoverPoint ''x'' None None [VInt 1] 1 1 False empty_state)) ''x''
      = Some (new_object Point ''x'') \<and>
   coverage_db (fst (CoverCross ''x'' [] [] 1 1 empty_state)) ''x''
      = Some (new_object Cross ''x'') \<and>
   coverage_db (fst (CoverCheck ''x'' x_eq_0 None 1 1 empty_state)) ''x''
      = Some (new_object Check ''x'')"
proof -
  have p: "snd (CoverPoint ''x'' None None [VInt 1] 1 1 False empty_state) = Inl NoParent"
    by (simp add: CoverPoint_def CoverPoint_init_def CoverItem_init_no_dot no_dot_x empty_state_def)
  have c: "snd (CoverCross ''x'' [] [] 1 1 empty_state) = Inl NoParent"
    by (simp add: CoverCross_def CoverCross_init_def CoverItem_init_no_dot no_dot_x empty_state_def)
  have k: "snd (CoverCheck ''x'' x_eq_0 None 1 1 empty_state) = Inl NoParent"
    by (simp add: CoverCheck_def CoverCheck_init_def CoverItem_init_no_dot no_dot_x empty_state_def)
  from p c k
    C9_registry_modified [of "''x''" None None "[VInt 1]" 1 1 False empty_state "[]" "[]" x_eq_0 None]
  show ?thesis by simp
qed

text \<open>
  Claim C10. A cross constructed with an ignore pattern of \<^verbatim>\<open>None\<close> only has no
  cross-bin and the size 0, and reading \<^verbatim>\<open>cover_percentage\<close> raises
  \<^verbatim>\<open>ZeroDivisionError\<close>. As stated, for any later access, the claim fails: the size
  of an object grows with every object registered beneath it, and after a point
  with one bin is registered as \<^verbatim>\<open>top.cross.p\<close> the cross has the size 1 and the
  percentage 100.
\<close>

theorem C10_counterexample:
  "cover_percentage_at wildcard_cross ''top.cross'' = Inl ZeroDivisionError \<and>
   size_at wildcard_cross ''top.cross'' = Inr 0 \<and>
   size_at wildcard_cross_child ''top.cross'' = Inr 1 \<and>
   cover_percentage_at wildcard_cross_child ''top.cross'' = Inr 100"
  by (simp add: wildcard_cross_child_def wildcard_cross_def two_points_def init_defs
      cross_names top_check_name(3) top_cross_p_name at_defs cover_percentage_def coverage_def
      bins_coverage_def size_p_def py_div_def)

text \<open>
  Claim C10, amended. When the construction of a cross under a new name returns and
  one of its ignore patterns consists of \<^verbatim>\<open>None\<close> only, the cross has no cross-bin
  and the size 0, and reading its \<^verbatim>\<open>cover_percentage\<close> raises \<^verbatim>\<open>ZeroDivisionError\<close>,
  then and after any sequence of sampling events.
\<close>

theorem C10_all_wildcards_remove_every_bin:
  assumes "nm \<notin> dom (coverage_db s)"
    and "CoverCross nm its ign_bins wt al s = (s', Inr obj)"
    and "ignore_bins \<in> set ign_bins" and "\<forall>i \<in> set ignore_bins. i = VNone"
  shows "detailed_coverage_at s' nm = Inr [] \<and> size_at s' nm = Inr 0 \<and>
         cover_percentage_at (samples evs s') nm = Inl ZeroDivisionError"
proof -
  from assms(1,2) have run: "CoverCross_init nm its ign_bins wt al s = (s', None)"
    by (auto simp: CoverCross_def split: if_splits prod.splits option.splits)
  from CoverCross_init_success [OF assms(1) run] obtain h0 h1 where
    r: "remove_ignored ign_bins (map fst h0) h0 = (h1, None)"
    and n: "coverage_db s' nm = Some ((new_object Cross nm)
             \<lparr>weight := wt, at_least := al, items := its, hits := Some h1,
              u_size := wt * int (length h1)\<rparr>)"
    by blast
  from remove_ignored_all [OF assms(3,4) r] have h1: "h1 = []" .
  let ?n = "(new_object Cross nm)
             \<lparr>weight := wt, at_least := al, items := its, hits := Some [], u_size := 0\<rparr>"
  from n h1 have n': "coverage_db s' nm = Some ?n" by simp
  from db_evolvesD [OF samples_evolves n', of evs] obtain n2 where
    n2: "coverage_db (samples evs s') nm = Some n2" "evolves ?n n2" by blast
  from evolves_fields [OF n2(2)]
  have f: "kind n2 = Cross" "u_size n2 = 0" "hits n2 = Some []"
    by (auto simp: new_object_def)
  from n' have "detailed_coverage_at s' nm = Inr []" "size_at s' nm = Inr 0"
    by (simp_all add: at_defs detailed_coverage_def size_p_def new_object_def)
  moreover from n2(1) f have "cover_percentage_at (samples evs s') nm = Inl ZeroDivisionError"
    by (simp add: at_defs cover_percentage_def coverage_def bins_coverage_def size_p_def
        py_div_def)
  ultimately show ?thesis by simp
qed

theorem C10_all_wildcards_remove_every_bin_witness:
  "''top.cross'' \<notin> dom (coverage_db two_points) \<and>
   CoverCross ''top.cross'' [''top.a'', ''top.b''] [[VNone, VNone]] 1 1 two_points
     = (wildcard_cross, Inr ''top.cross'') \<and>
   detailed_coverage_at wildcard_cross ''top.cross'' = Inr [] \<and>
   size_at wildcard_cross ''top.cross'' = Inr 0 \<and>
   cover_percentage_at
     (samples [(''top.a'', [VInt 2, VInt 2]), (''top.b'', [VInt 2, VInt 2]),
               (''top.cross'', [VInt 2, VInt 2])] wildcard_cross) ''top.cross''
     = Inl ZeroDivisionError"
proof -
  have fresh: "''top.cross'' \<notin> dom (coverage_db two_points)"
    by (simp add: two_points_def init_defs cross_names top_check_name(3))
  have pat: "[VNone, VNone] \<in> set [[VNone, VNone]]" "\<forall>i \<in> set [VNone, VNone]. i = VNone"
    by simp_all
  from C10_all_wildcards_remove_every_bin [OF fresh wildcard_cross_run pat,
      where evs = "[(''top.a'', [VInt 2, VInt 2]), (''top.b'', [VInt 2, VInt 2]),
                    (''top.cross'', [VInt 2, VInt 2])]"]
    fresh wildcard_cross_run
  show ?thesis by blast
qed

end
